theory Spec2Isabelle
  imports Main "HOL-Library.Monad_Syntax"
begin

section \<open>Event dispatcher (melo\_event.c)\<close>

text \<open>
  Heap addresses are natural numbers. A fresh object is allocated at the
  allocation counter of the state it lives in, which is then advanced.
\<close>

type_synonym addr = nat

datatype MeloEventType =
    MELO_EVENT_TYPE_GENERAL
  | MELO_EVENT_TYPE_MODULE
  | MELO_EVENT_TYPE_BROWSER
  | MELO_EVENT_TYPE_PLAYER
  | MELO_EVENT_TYPE_PLAYLIST

text \<open>
  \<^verbatim>\<open>struct _MeloEventClient { MeloEventCallback callback; gpointer user_data; }\<close>
\<close>

record ('cb, 'ud) MeloEventClient =
  callback :: 'cb
  user_data :: 'ud

text \<open>
  The process-wide client list \<^verbatim>\<open>melo_event_clients\<close>, head first. Every cell
  holds the address of a client (the cell's data pointer) together with the
  client record stored there: a client is written once, in
  \<^verbatim>\<open>melo_event_register\<close>, and never changed afterwards.
\<close>

record ('cb, 'ud) event_state =
  melo_event_clients :: "(addr \<times> ('cb, 'ud) MeloEventClient) list"
  event_next_addr :: addr

text \<open>
  What \<^verbatim>\<open>melo_event_new\<close> does, in the order it does it: taking and releasing
  \<^verbatim>\<open>melo_event_mutex\<close>, the call
  \<^verbatim>\<open>client->callback (client, type, event, id, data, client->user_data)\<close>,
  and the call \<^verbatim>\<open>free_data_func (data)\<close>.
\<close>

datatype ('cb, 'ud, 'd, 'f) event_action =
    EventLock
  | EventUnlock
  | Callback 'cb addr MeloEventType nat "string option" 'd 'ud
  | FreeData 'f 'd

definition melo_event_init :: "('cb, 'ud) event_state" where
  "melo_event_init = \<lparr>melo_event_clients = [], event_next_addr = 1\<rparr>"

text \<open>
  \<^verbatim>\<open>melo_event_register\<close>: a new client is allocated and filled, then
  \<^verbatim>\<open>g_list_prepend\<close> puts it at the head of the list. The result is the new
  client's address and the new state. (\<^verbatim>\<open>g_slice_new0\<close> aborts the process when
  memory is exhausted, so the \<^verbatim>\<open>NULL\<close> branch of the source is never taken.)
\<close>

definition melo_event_register ::
  "'cb \<Rightarrow> 'ud \<Rightarrow> ('cb, 'ud) event_state \<Rightarrow> addr \<times> ('cb, 'ud) event_state" where
  "melo_event_register cb ud st =
     (let client = event_next_addr st in
      (client,
       st\<lparr>melo_event_clients :=
            (client, \<lparr>callback = cb, user_data = ud\<rparr>) # melo_event_clients st,
          event_next_addr := client + 1\<rparr>))"

text \<open>
  \<^verbatim>\<open>melo_event_unregister\<close>: \<^verbatim>\<open>g_list_remove\<close> unlinks the first cell whose data
  pointer is the client, and the client is freed.
\<close>

fun g_list_remove_client ::
  "(addr \<times> 'c) list \<Rightarrow> addr \<Rightarrow> (addr \<times> 'c) list" where
  "g_list_remove_client [] client = []"
| "g_list_remove_client (x # l) client =
     (if fst x = client then l else x # g_list_remove_client l client)"

definition melo_event_unregister ::
  "addr \<Rightarrow> ('cb, 'ud) event_state \<Rightarrow> ('cb, 'ud) event_state" where
  "melo_event_unregister client st =
     st\<lparr>melo_event_clients := g_list_remove_client (melo_event_clients st) client\<rparr>"

text \<open>
  \<^verbatim>\<open>melo_event_new\<close>: under the lock, walk the list from its head and call every
  client's callback; after the lock is released, free the event data when a
  destructor was given. The client list is not changed.
\<close>

definition melo_event_new ::
  "MeloEventType \<Rightarrow> nat \<Rightarrow> string option \<Rightarrow> 'd \<Rightarrow> 'f option \<Rightarrow>
   ('cb, 'ud) event_state \<Rightarrow> ('cb, 'ud, 'd, 'f) event_action list" where
  "melo_event_new type event ident data free_data_func st =
     [EventLock]
     @ map (\<lambda>(client, c). Callback (callback c) client type event ident data (user_data c))
         (melo_event_clients st)
     @ [EventUnlock]
     @ (case free_data_func of None \<Rightarrow> [] | Some f \<Rightarrow> [FreeData f data])"

text \<open>
  A sequence of registrations, made one after the other. The result lists
  the handles in the order the clients were registered.
\<close>

fun register_all ::
  "('cb \<times> 'ud) list \<Rightarrow> ('cb, 'ud) event_state \<Rightarrow> addr list \<times> ('cb, 'ud) event_state" where
  "register_all [] st = ([], st)"
| "register_all ((cb, ud) # regs) st =
     (let (h, st1) = melo_event_register cb ud st;
          (hs, st2) = register_all regs st1
      in (h # hs, st2))"

text \<open>The handles of the clients whose callback a run of \<^verbatim>\<open>melo_event_new\<close> called, in call order.\<close>

fun called_clients :: "('cb, 'ud, 'd, 'f) event_action list \<Rightarrow> addr list" where
  "called_clients [] = []"
| "called_clients (Callback cb client ty ev ident d ud # as) = client # called_clients as"
| "called_clients (a # as) = called_clients as"

text \<open>
  The call \<^verbatim>\<open>melo_event_new\<close> makes for a client registered with the handle and
  the pair of callback and user data given.
\<close>

definition client_call ::
  "MeloEventType \<Rightarrow> nat \<Rightarrow> string option \<Rightarrow> 'd \<Rightarrow> addr \<times> ('cb \<times> 'ud) \<Rightarrow>
   ('cb, 'ud, 'd, 'f) event_action" where
  "client_call type event ident data x =
     Callback (fst (snd x)) (fst x) type event ident data (snd (snd x))"

section \<open>Simple playlist (melo\_playlist\_simple.c)\<close>

subsection \<open>Data\<close>

datatype MeloPlayerState =
    MELO_PLAYER_STATE_NONE
  | MELO_PLAYER_STATE_LOADING
  | MELO_PLAYER_STATE_BUFFERING
  | MELO_PLAYER_STATE_PLAYING
  | MELO_PLAYER_STATE_PAUSED_LOADING
  | MELO_PLAYER_STATE_PAUSED_BUFFERING
  | MELO_PLAYER_STATE_PAUSED
  | MELO_PLAYER_STATE_STOPPED
  | MELO_PLAYER_STATE_ERROR

text \<open>
  A \<^verbatim>\<open>MeloPlaylistItem\<close> with its reference count. Tags are an opaque reference
  \<open>'t\<close> to a \<^verbatim>\<open>MeloTags\<close> object (\<open>None\<close> is \<^verbatim>\<open>NULL\<close>); the tags' own
  reference count is not part of this model. The name of an item is the
  \<^verbatim>\<open>final_name\<close> that \<^verbatim>\<open>melo_playlist_simple_add\<close> stores right after creating it.
\<close>

record 't MeloPlaylistItem =
  item_name :: string
  item_full_name :: "string option"
  item_path :: "string option"
  item_tags :: "'t option"
  item_can_play :: bool
  item_can_remove :: bool
  item_ref_count :: nat

text \<open>
  The state of one playlist object and of the heap its items live in.
  \<^item> \<open>items_heap\<close>: the live \<^verbatim>\<open>MeloPlaylistItem\<close> objects, by address;
  \<^item> \<open>next_addr\<close>: the allocation counter;
  \<^item> \<open>playlist\<close>: \<^verbatim>\<open>priv->playlist\<close>, a \<^verbatim>\<open>GList\<close>, as the list of its cells from
    head to tail; a cell is the pair of its own address and its data pointer
    (the address of an item). \<^verbatim>\<open>cell->next\<close> and \<^verbatim>\<open>cell->prev\<close> are the
    neighbours of the cell in this list;
  \<^item> \<open>names\<close>: \<^verbatim>\<open>priv->names\<close>, the hash table from a name to a cell address;
  \<^item> \<open>current\<close>: \<^verbatim>\<open>priv->current\<close>, a cell address or \<^verbatim>\<open>NULL\<close>;
  \<^item> \<open>player\<close>: \<^verbatim>\<open>playlist->player\<close>, the attached player or \<^verbatim>\<open>NULL\<close>.
\<close>

record ('t, 'p) playlist_state =
  items_heap :: "addr \<rightharpoonup> 't MeloPlaylistItem"
  next_addr :: addr
  playlist :: "(addr \<times> addr) list"
  names :: "string \<rightharpoonup> addr"
  current :: "addr option"
  override_cover_url :: bool
  player :: "'p option"

text \<open>
  What an operation does besides changing the state, in the order it does it:
  taking and releasing \<^verbatim>\<open>priv->mutex\<close>, and the calls into the player and the
  tags: \<^verbatim>\<open>melo_player_play (player, path, name, tags, insert)\<close>,
  \<^verbatim>\<open>melo_player_set_state (player, state)\<close> and
  \<^verbatim>\<open>melo_tags_set_cover_url (tags, playlist, final_name, NULL)\<close>.
\<close>

datatype ('t, 'p) playlist_action =
    MutexLock
  | MutexUnlock
  | PlayerPlay 'p "string option" string "'t option" bool
  | PlayerSetState "'p option" MeloPlayerState
  | TagsSetCoverUrl "'t option" string

text \<open>The list \<^verbatim>\<open>get_list\<close> returns: \<^verbatim>\<open>list->items\<close> (a \<^verbatim>\<open>GList\<close>) and \<^verbatim>\<open>list->current\<close>.\<close>

record MeloPlaylistList =
  list_items :: "(addr \<times> addr) list"
  list_current :: "string option"

subsection \<open>GLib lists\<close>

text \<open>\<^verbatim>\<open>cell->next\<close> and \<^verbatim>\<open>cell->prev\<close> for a cell of the list; \<^verbatim>\<open>NULL\<close> is \<open>None\<close>.\<close>

fun g_list_next :: "(addr \<times> addr) list \<Rightarrow> addr \<Rightarrow> addr option" where
  "g_list_next [] c = None"
| "g_list_next [x] c = None"
| "g_list_next (x # y # l) c = (if fst x = c then Some (fst y) else g_list_next (y # l) c)"

fun g_list_prev :: "(addr \<times> addr) list \<Rightarrow> addr \<Rightarrow> addr option" where
  "g_list_prev [] c = None"
| "g_list_prev [x] c = None"
| "g_list_prev (x # y # l) c = (if fst y = c then Some (fst x) else g_list_prev (y # l) c)"

text \<open>\<^verbatim>\<open>g_list_remove (list, data)\<close> unlinks and frees the first cell whose data pointer is \<^verbatim>\<open>data\<close>.\<close>

fun g_list_remove :: "(addr \<times> addr) list \<Rightarrow> addr \<Rightarrow> (addr \<times> addr) list" where
  "g_list_remove [] d = []"
| "g_list_remove (x # l) d = (if snd x = d then l else x # g_list_remove l d)"

subsection \<open>Items\<close>

text \<open>
  Modelled from the spec: \<^verbatim>\<open>melo_playlist_item_new\<close>, \<^verbatim>\<open>melo_playlist_item_ref\<close> and
  \<^verbatim>\<open>melo_playlist_item_unref\<close> are defined in melo\_playlist.c, which is not among the
  sources. The specification says of a playlist item that it is
  ``reference-counted'' and ``destroyed on last release'': a new item has one
  reference, \<^verbatim>\<open>ref\<close> adds one, \<^verbatim>\<open>unref\<close> takes one away and frees the item when
  none is left. Following a pointer to an item that is not live is undefined
  behaviour, the result \<open>None\<close>.
\<close>

definition melo_playlist_item_ref ::
  "addr \<Rightarrow> ('t, 'p) playlist_state \<Rightarrow> ('t, 'p) playlist_state option" where
  "melo_playlist_item_ref d s =
     (case items_heap s d of
        None \<Rightarrow> None
      | Some it \<Rightarrow>
          Some (s\<lparr>items_heap := (items_heap s)(d \<mapsto> it\<lparr>item_ref_count := item_ref_count it + 1\<rparr>)\<rparr>))"

definition melo_playlist_item_unref ::
  "addr \<Rightarrow> ('t, 'p) playlist_state \<Rightarrow> ('t, 'p) playlist_state option" where
  "melo_playlist_item_unref d s =
     (case items_heap s d of
        None \<Rightarrow> None
      | Some it \<Rightarrow>
          if item_ref_count it \<le> 1
          then Some (s\<lparr>items_heap := (items_heap s)(d := None)\<rparr>)
          else Some (s\<lparr>items_heap := (items_heap s)(d \<mapsto> it\<lparr>item_ref_count := item_ref_count it - 1\<rparr>)\<rparr>))"

subsection \<open>Names\<close>

text \<open>
  \<^verbatim>\<open>gint\<close> is a 32-bit signed integer, and \<^verbatim>\<open>G_MAXINT\<close>, its largest value, is
  \<open>2147483647\<close>. \<^verbatim>\<open>i++\<close> at \<^verbatim>\<open>G_MAXINT\<close> is a signed overflow, which is undefined
  behaviour in C; \<^verbatim>\<open>configure.ac\<close> adds no compiler option that would define it.
\<close>

definition digit_char :: "nat \<Rightarrow> char" where
  "digit_char n = ''0123456789'' ! n"

fun dec_digits :: "nat \<Rightarrow> string" where
  "dec_digits n =
     (if n < 10 then [digit_char n] else dec_digits (n div 10) @ [digit_char (n mod 10)])"

text \<open>What \<^verbatim>\<open>printf\<close> writes for \<^verbatim>\<open>%d\<close>.\<close>

definition print_gint :: "int \<Rightarrow> string" where
  "print_gint i = (if i < 0 then CHR ''-'' # dec_digits (nat (- i)) else dec_digits (nat i))"

text \<open>
  \<^verbatim>\<open>#define MELO_PLAYLIST_SIMPLE_NAME_EXT_SIZE 10\<close>, and
  \<^verbatim>\<open>g_snprintf (final_name + len, MELO_PLAYLIST_SIMPLE_NAME_EXT_SIZE, "_%d", i)\<close>:
  at most \<^verbatim>\<open>MELO_PLAYLIST_SIMPLE_NAME_EXT_SIZE - 1\<close> characters of the suffix are
  written after the first \<^verbatim>\<open>len\<close> characters of the buffer, which hold the name.
\<close>

definition MELO_PLAYLIST_SIMPLE_NAME_EXT_SIZE :: nat where
  "MELO_PLAYLIST_SIMPLE_NAME_EXT_SIZE = 10"

definition name_ext :: "int \<Rightarrow> string" where
  "name_ext i = take (MELO_PLAYLIST_SIMPLE_NAME_EXT_SIZE - 1) (CHR ''_'' # print_gint i)"

text \<open>
  The loop
  \<^verbatim>\<open>for (i = 1; i > 0 && g_hash_table_lookup (priv->names, final_name); i++) g_snprintf (...)\<close>
  from the values of \<^verbatim>\<open>final_name\<close> and \<^verbatim>\<open>i\<close> at its test; the result is their values
  when the loop is left. A round of the loop writes the suffix for \<^verbatim>\<open>i\<close> and
  then increments \<^verbatim>\<open>i\<close>; the result is \<open>None\<close> when that increment overflows.
\<close>

function name_loop :: "(string \<rightharpoonup> addr) \<Rightarrow> string \<Rightarrow> string \<Rightarrow> int \<Rightarrow> (string \<times> int) option" where
  "name_loop tbl nm final_name i =
     (if 0 < i \<and> tbl final_name \<noteq> None
      then (if i < 2147483647 then name_loop tbl nm (nm @ name_ext i) (i + 1) else None)
      else Some (final_name, i))"
  by pat_completeness auto
termination
  by (relation "measure (\<lambda>(tbl, nm, final_name, i). nat (2147483647 - i))") auto

subsection \<open>Operations\<close>

text \<open>
  Every operation takes the state and returns its result, the new state and
  the actions it made, or \<open>None\<close> where the C code has undefined behaviour
  (it follows a pointer to a cell that is not in the list, or to an item that
  is not live, or calls \<^verbatim>\<open>strlen (NULL)\<close>, or overflows a signed integer).
\<close>

text \<open>
  \<^verbatim>\<open>melo_playlist_simple_init\<close>; the private structure is zero-filled, so
  \<^verbatim>\<open>override_cover_url\<close> starts as \<^verbatim>\<open>FALSE\<close>. The attached player is a field of the
  base object and is given here.
\<close>

definition melo_playlist_simple_init :: "'p option \<Rightarrow> ('t, 'p) playlist_state" where
  "melo_playlist_simple_init p =
     \<lparr>items_heap = Map.empty, next_addr = 1, playlist = [], names = Map.empty,
      current = None, override_cover_url = False, player = p\<rparr>"

definition melo_playlist_simple_override_cover_url ::
  "bool \<Rightarrow> ('t, 'p) playlist_state \<Rightarrow> ('t, 'p) playlist_state" where
  "melo_playlist_simple_override_cover_url override_url s = s\<lparr>override_cover_url := override_url\<rparr>"

text \<open>
  \<^verbatim>\<open>g_list_copy_deep (priv->playlist, (GCopyFunc) melo_playlist_item_ref, NULL)\<close>: a
  new cell for every cell of the list, in the same order, whose data pointer
  is what \<^verbatim>\<open>melo_playlist_item_ref\<close> returns for the old one: the same item, with
  one more reference.
\<close>

fun g_list_copy_deep_ref ::
  "(addr \<times> addr) list \<Rightarrow> ('t, 'p) playlist_state \<Rightarrow>
   ((addr \<times> addr) list \<times> ('t, 'p) playlist_state) option" where
  "g_list_copy_deep_ref [] s = Some ([], s)"
| "g_list_copy_deep_ref (x # l) s =
     do {
       s1 \<leftarrow> melo_playlist_item_ref (snd x) s;
       (l', s2) \<leftarrow> g_list_copy_deep_ref l (s1\<lparr>next_addr := next_addr s1 + 1\<rparr>);
       Some ((next_addr s1, snd x) # l', s2)
     }"

text \<open>
  \<^verbatim>\<open>melo_playlist_simple_get_list\<close>. The argument \<^verbatim>\<open>tags_fields\<close> is not used by the
  source. \<^verbatim>\<open>melo_playlist_list_new\<close> gives a list with no items and no current name;
  like every allocation here it is taken to succeed.
\<close>

definition melo_playlist_simple_get_list ::
  "('t, 'p) playlist_state \<Rightarrow>
   (MeloPlaylistList \<times> ('t, 'p) playlist_state \<times> ('t, 'p) playlist_action list) option" where
  "melo_playlist_simple_get_list s =
     do {
       (l, s1) \<leftarrow> g_list_copy_deep_ref (playlist s) s;
       cur \<leftarrow> (case current s1 of
                 None \<Rightarrow> Some None
               | Some c \<Rightarrow> do {
                   d \<leftarrow> map_of (playlist s1) c;
                   item \<leftarrow> items_heap s1 d;
                   Some (Some (item_name item))
                 });
       Some (\<lparr>list_items = l, list_current = cur\<rparr>, s1, [MutexLock, MutexUnlock])
     }"

text \<open>
  \<^verbatim>\<open>if (!name) name = full_name ? full_name : path;\<close> The result \<open>None\<close> is \<^verbatim>\<open>NULL\<close>.
\<close>

definition base_name :: "string option \<Rightarrow> string option \<Rightarrow> string option \<Rightarrow> string option" where
  "base_name nm fnm pth =
     (case nm of Some n \<Rightarrow> Some n | None \<Rightarrow> (case fnm of Some f \<Rightarrow> Some f | None \<Rightarrow> pth))"

text \<open>
  \<^verbatim>\<open>melo_playlist_simple_add\<close>. \<open>has_cover\<close> stands for \<^verbatim>\<open>melo_tags_has_cover\<close>, which
  is defined with the tags. The item is allocated first, then the cell that
  \<^verbatim>\<open>g_list_prepend\<close> puts at the head of the list. The test \<^verbatim>\<open>if (i < 0)\<close> is
  kept as the source has it; \<^verbatim>\<open>i\<close> starts at \<open>1\<close> and is only incremented, so it is
  negative in no run of the loop that has defined behaviour.
\<close>

definition melo_playlist_simple_add ::
  "('t option \<Rightarrow> bool) \<Rightarrow> string option \<Rightarrow> string option \<Rightarrow> string option \<Rightarrow>
   't option \<Rightarrow> bool \<Rightarrow> ('t, 'p) playlist_state \<Rightarrow>
   (bool \<times> ('t, 'p) playlist_state \<times> ('t, 'p) playlist_action list) option" where
  "melo_playlist_simple_add has_cover nm fnm pth tgs is_current s =
     (case base_name nm fnm pth of
        None \<Rightarrow> None
      | Some n \<Rightarrow>
          (case name_loop (names s) n n 1 of
             None \<Rightarrow> None
           | Some (final_name, i) \<Rightarrow>
               if i < 0 then Some (False, s, [MutexLock, MutexUnlock])
               else
                 (let item = next_addr s;
                      cell = next_addr s + 1;
                      s1 = s\<lparr>items_heap := (items_heap s)(item \<mapsto>
                               \<lparr>item_name = final_name, item_full_name = fnm, item_path = pth,
                                item_tags = tgs, item_can_play = True, item_can_remove = True,
                                item_ref_count = 1\<rparr>),
                             next_addr := next_addr s + 2,
                             playlist := (cell, item) # playlist s,
                             names := (names s)(final_name \<mapsto> cell)\<rparr>;
                      cover = (if override_cover_url s \<and> has_cover tgs
                               then [TagsSetCoverUrl tgs final_name] else []);
                      s2 = (if is_current then s1\<lparr>current := Some cell\<rparr> else s1)
                  in Some (True, s2, [MutexLock] @ cover @ [MutexUnlock]))))"

text \<open>
  An output parameter (\<^verbatim>\<open>gchar **name\<close>, \<^verbatim>\<open>MeloTags **tags\<close>) is \<open>None\<close> when the
  caller passes \<^verbatim>\<open>NULL\<close> and \<open>Some v\<close> when it passes the address of a variable
  that holds \<open>v\<close>; the functions below give the variable's value after
  \<^verbatim>\<open>if (name) *name = g_strdup (item->name);\<close> and after
  \<^verbatim>\<open>if (tags && item->tags) *tags = melo_tags_ref (item->tags);\<close>
\<close>

definition store_name :: "string option option \<Rightarrow> 't MeloPlaylistItem \<Rightarrow> string option option" where
  "store_name name_out item =
     (case name_out of None \<Rightarrow> None | Some v \<Rightarrow> Some (Some (item_name item)))"

definition store_tags :: "'t option option \<Rightarrow> 't MeloPlaylistItem \<Rightarrow> 't option option" where
  "store_tags tags_out item =
     (case tags_out of
        None \<Rightarrow> None
      | Some v \<Rightarrow> (case item_tags item of None \<Rightarrow> Some v | Some t \<Rightarrow> Some (Some t)))"

text \<open>
  \<^verbatim>\<open>melo_playlist_simple_get_prev\<close>. The result is the returned path, the values of
  the two output variables, the new state and the actions.
\<close>

definition melo_playlist_simple_get_prev ::
  "string option option \<Rightarrow> 't option option \<Rightarrow> bool \<Rightarrow> ('t, 'p) playlist_state \<Rightarrow>
   (string option \<times> string option option \<times> 't option option \<times>
    ('t, 'p) playlist_state \<times> ('t, 'p) playlist_action list) option" where
  "melo_playlist_simple_get_prev name_out tags_out do_set s =
     (case current s of
        None \<Rightarrow> Some (None, name_out, tags_out, s, [MutexLock, MutexUnlock])
      | Some c \<Rightarrow>
          (case map_of (playlist s) c of
             None \<Rightarrow> None
           | Some _ \<Rightarrow>
               (case g_list_next (playlist s) c of
                  None \<Rightarrow> Some (None, name_out, tags_out, s, [MutexLock, MutexUnlock])
                | Some n \<Rightarrow>
                    do {
                      d \<leftarrow> map_of (playlist s) n;
                      item \<leftarrow> items_heap s d;
                      Some (item_path item, store_name name_out item, store_tags tags_out item,
                            (if do_set then s\<lparr>current := Some n\<rparr> else s),
                            [MutexLock, MutexUnlock])
                    })))"

text \<open>
  \<^verbatim>\<open>melo_playlist_simple_get_next\<close>: the same with \<^verbatim>\<open>priv->current->prev\<close>, and
  \<^verbatim>\<open>priv->current = priv->current->prev\<close> is not under \<^verbatim>\<open>if (set)\<close>.
\<close>

definition melo_playlist_simple_get_next ::
  "string option option \<Rightarrow> 't option option \<Rightarrow> bool \<Rightarrow> ('t, 'p) playlist_state \<Rightarrow>
   (string option \<times> string option option \<times> 't option option \<times>
    ('t, 'p) playlist_state \<times> ('t, 'p) playlist_action list) option" where
  "melo_playlist_simple_get_next name_out tags_out do_set s =
     (case current s of
        None \<Rightarrow> Some (None, name_out, tags_out, s, [MutexLock, MutexUnlock])
      | Some c \<Rightarrow>
          (case map_of (playlist s) c of
             None \<Rightarrow> None
           | Some _ \<Rightarrow>
               (case g_list_prev (playlist s) c of
                  None \<Rightarrow> Some (None, name_out, tags_out, s, [MutexLock, MutexUnlock])
                | Some n \<Rightarrow>
                    do {
                      d \<leftarrow> map_of (playlist s) n;
                      item \<leftarrow> items_heap s d;
                      Some (item_path item, store_name name_out item, store_tags tags_out item,
                            s\<lparr>current := Some n\<rparr>,
                            [MutexLock, MutexUnlock])
                    })))"

text \<open>
  \<^verbatim>\<open>melo_playlist_simple_play\<close>: the item is looked up, referenced and made current
  under the lock; the player is called after \<^verbatim>\<open>g_mutex_unlock\<close>.
\<close>

definition melo_playlist_simple_play ::
  "string \<Rightarrow> ('t, 'p) playlist_state \<Rightarrow>
   (bool \<times> ('t, 'p) playlist_state \<times> ('t, 'p) playlist_action list) option" where
  "melo_playlist_simple_play nm s =
     (case names s nm of
        None \<Rightarrow> Some (False, s, [MutexLock, MutexUnlock])
      | Some element \<Rightarrow>
          do {
            d \<leftarrow> map_of (playlist s) element;
            s1 \<leftarrow> melo_playlist_item_ref d s;
            let s2 = s1\<lparr>current := Some element\<rparr>;
            item \<leftarrow> items_heap s2 d;
            let call = (case player s2 of
                          None \<Rightarrow> []
                        | Some p \<Rightarrow>
                            [PlayerPlay p (item_path item) (item_name item) (item_tags item) False]);
            s3 \<leftarrow> melo_playlist_item_unref d s2;
            Some (True, s3, [MutexLock, MutexUnlock] @ call)
          })"

text \<open>
  \<^verbatim>\<open>melo_playlist_simple_remove\<close>: \<^verbatim>\<open>melo_player_set_state\<close> is called with
  \<^verbatim>\<open>playlist->player\<close> as it is, between \<^verbatim>\<open>g_mutex_lock\<close> and \<^verbatim>\<open>g_mutex_unlock\<close>.
\<close>

definition melo_playlist_simple_remove ::
  "string \<Rightarrow> ('t, 'p) playlist_state \<Rightarrow>
   (bool \<times> ('t, 'p) playlist_state \<times> ('t, 'p) playlist_action list) option" where
  "melo_playlist_simple_remove nm s =
     (case names s nm of
        None \<Rightarrow> Some (False, s, [MutexLock, MutexUnlock])
      | Some element \<Rightarrow>
          do {
            d \<leftarrow> map_of (playlist s) element;
            let stop = (if Some element = current s
                        then [PlayerSetState (player s) MELO_PLAYER_STATE_NONE] else []);
            let s1 = (if Some element = current s then s\<lparr>current := None\<rparr> else s);
            let s2 = s1\<lparr>playlist := g_list_remove (playlist s1) d, names := (names s1)(nm := None)\<rparr>;
            s3 \<leftarrow> melo_playlist_item_unref d s2;
            Some (True, s3, [MutexLock] @ stop @ [MutexUnlock])
          })"

text \<open>
  \<^verbatim>\<open>melo_playlist_simple_get_cover\<close>. \<open>data\<close> and \<open>type\<close> are the values of the
  caller's variables \<^verbatim>\<open>*data\<close> and \<^verbatim>\<open>*type\<close> before the call; the result gives their
  values after it. \<open>get_cover\<close> stands for \<^verbatim>\<open>melo_tags_get_cover (tags, type)\<close>, which
  is defined with the tags: from the tags and the old value of \<^verbatim>\<open>*type\<close> it gives
  the returned data and the new value of \<^verbatim>\<open>*type\<close>.
\<close>

definition melo_playlist_simple_get_cover ::
  "('t \<Rightarrow> string option \<Rightarrow> 'b option \<times> string option) \<Rightarrow> string \<Rightarrow> 'b option \<Rightarrow>
   string option \<Rightarrow> ('t, 'p) playlist_state \<Rightarrow>
   (bool \<times> 'b option \<times> string option \<times> ('t, 'p) playlist_action list) option" where
  "melo_playlist_simple_get_cover get_cover pth data type s =
     (case names s pth of
        None \<Rightarrow> Some (False, data, type, [MutexLock, MutexUnlock])
      | Some element \<Rightarrow>
          do {
            d \<leftarrow> map_of (playlist s) element;
            item \<leftarrow> items_heap s d;
            (case item_tags item of
               None \<Rightarrow> Some (True, data, type, [MutexLock, MutexUnlock])
             | Some t \<Rightarrow>
                 (let (data', type') = get_cover t type
                  in Some (True, data', type', [MutexLock, MutexUnlock])))
          })"

subsection \<open>Sequences of operations\<close>

text \<open>
  The operations that change the state, with their arguments (\<^verbatim>\<open>get_list\<close> adds a
  reference to every item).
\<close>

datatype 't playlist_op =
    OpAdd "string option" "string option" "string option" "'t option" bool
  | OpGetPrev "string option option" "'t option option" bool
  | OpGetNext "string option option" "'t option option" bool
  | OpPlay string
  | OpRemove string
  | OpGetList
  | OpOverrideCoverUrl bool

text \<open>The state after one operation, and after a sequence of them.\<close>

fun apply_op ::
  "('t option \<Rightarrow> bool) \<Rightarrow> 't playlist_op \<Rightarrow> ('t, 'p) playlist_state \<Rightarrow>
   ('t, 'p) playlist_state option" where
  "apply_op hc (OpAdd nm fnm pth tgs cur) s =
     (case melo_playlist_simple_add hc nm fnm pth tgs cur s of
        None \<Rightarrow> None | Some (r, s', tr) \<Rightarrow> Some s')"
| "apply_op hc (OpGetPrev name_out tags_out do_set) s =
     (case melo_playlist_simple_get_prev name_out tags_out do_set s of
        None \<Rightarrow> None | Some (pth, n, t, s', tr) \<Rightarrow> Some s')"
| "apply_op hc (OpGetNext name_out tags_out do_set) s =
     (case melo_playlist_simple_get_next name_out tags_out do_set s of
        None \<Rightarrow> None | Some (pth, n, t, s', tr) \<Rightarrow> Some s')"
| "apply_op hc (OpPlay nm) s =
     (case melo_playlist_simple_play nm s of None \<Rightarrow> None | Some (r, s', tr) \<Rightarrow> Some s')"
| "apply_op hc (OpRemove nm) s =
     (case melo_playlist_simple_remove nm s of None \<Rightarrow> None | Some (r, s', tr) \<Rightarrow> Some s')"
| "apply_op hc OpGetList s =
     (case melo_playlist_simple_get_list s of None \<Rightarrow> None | Some (l, s', tr) \<Rightarrow> Some s')"
| "apply_op hc (OpOverrideCoverUrl override_url) s =
     Some (melo_playlist_simple_override_cover_url override_url s)"

fun run_ops ::
  "('t option \<Rightarrow> bool) \<Rightarrow> 't playlist_op list \<Rightarrow> ('t, 'p) playlist_state \<Rightarrow>
   ('t, 'p) playlist_state option" where
  "run_ops hc [] s = Some s"
| "run_ops hc (x # xs) s =
     (case apply_op hc x s of None \<Rightarrow> None | Some s' \<Rightarrow> run_ops hc xs s')"

subsection \<open>Properties of states and traces\<close>

text \<open>The item a cell of the playlist points to.\<close>

definition cell_item :: "('t, 'p) playlist_state \<Rightarrow> addr \<Rightarrow> 't MeloPlaylistItem option" where
  "cell_item s c = (case map_of (playlist s) c of None \<Rightarrow> None | Some d \<Rightarrow> items_heap s d)"

text \<open>The names of the items of the playlist, from head to tail.\<close>

definition playlist_names :: "('t, 'p) playlist_state \<Rightarrow> string option list" where
  "playlist_names s = map (\<lambda>x. map_option item_name (items_heap s (snd x))) (playlist s)"

text \<open>The three parts of the playlist invariant.\<close>

definition names_unique :: "('t, 'p) playlist_state \<Rightarrow> bool" where
  "names_unique s = (distinct (playlist_names s) \<and> None \<notin> set (playlist_names s))"

definition names_in_sequence :: "('t, 'p) playlist_state \<Rightarrow> bool" where
  "names_in_sequence s = (\<forall>k c. names s k = Some c \<longrightarrow> c \<in> fst ` set (playlist s))"

definition current_in_sequence :: "('t, 'p) playlist_state \<Rightarrow> bool" where
  "current_in_sequence s = (\<forall>c. current s = Some c \<longrightarrow> c \<in> fst ` set (playlist s))"

definition playlist_invariant :: "('t, 'p) playlist_state \<Rightarrow> bool" where
  "playlist_invariant s = (names_unique s \<and> names_in_sequence s \<and> current_in_sequence s)"

text \<open>
  Well-formed states: the cells of the list are distinct and so are the items
  they point to; every item of the list is live, holds a reference, and is
  found under its name in the hash table; every entry of the hash table is the
  cell of an item of that name; \<open>current\<close> is a cell of the list; and every
  address in use is below the allocation counter.
\<close>

definition playlist_wf :: "('t, 'p) playlist_state \<Rightarrow> bool" where
  "playlist_wf s =
     (distinct (map fst (playlist s)) \<and>
      distinct (map snd (playlist s)) \<and>
      (\<forall>x \<in> set (playlist s).
         fst x < next_addr s \<and> snd x < next_addr s \<and>
         (\<exists>it. items_heap s (snd x) = Some it \<and> 0 < item_ref_count it \<and>
               names s (item_name it) = Some (fst x))) \<and>
      (\<forall>k c. names s k = Some c \<longrightarrow>
         (\<exists>it. cell_item s c = Some it \<and> item_name it = k)) \<and>
      (\<forall>c. current s = Some c \<longrightarrow> c \<in> fst ` set (playlist s)) \<and>
      (\<forall>a. a \<in> dom (items_heap s) \<longrightarrow> a < next_addr s))"

text \<open>
  What can be read through a list returned by \<^verbatim>\<open>get_list\<close>: for every cell the
  item it points to (its reference count left aside; \<open>None\<close> if the item is not
  live any more), and the name of the current item. The tags of an item are a
  reference; what the tags object holds is not part of this.
\<close>

definition list_contents ::
  "('t, 'p) playlist_state \<Rightarrow> MeloPlaylistList \<Rightarrow> 't MeloPlaylistItem option list \<times> string option" where
  "list_contents s l =
     (map (\<lambda>x. map_option (\<lambda>it. it\<lparr>item_ref_count := 0\<rparr>) (items_heap s (snd x))) (list_items l),
      list_current l)"

text \<open>
  The list holds a reference to each of its items: an item of the list is
  live, and has a reference besides the one of the playlist, if it is in the
  playlist.
\<close>

definition list_holds_refs :: "('t, 'p) playlist_state \<Rightarrow> MeloPlaylistList \<Rightarrow> bool" where
  "list_holds_refs s l =
     (\<forall>x \<in> set (list_items l).
        \<exists>it. items_heap s (snd x) = Some it \<and>
             (if snd x \<in> snd ` set (playlist s) then 2 else 1) \<le> item_ref_count it)"

text \<open>
  The cells of a returned list are not cells of the playlist, and lie below
  the allocation counter, so that no cell allocated later is one of them.
\<close>

definition cells_apart :: "('t, 'p) playlist_state \<Rightarrow> MeloPlaylistList \<Rightarrow> bool" where
  "cells_apart s l =
     (\<forall>c \<in> fst ` set (list_items l). c < next_addr s \<and> c \<notin> fst ` set (playlist s))"

text \<open>
  A later state \<open>s'\<close> keeps a list returned in the state \<open>s\<close>: the list still
  holds its references and reads as it did.
\<close>

definition list_kept ::
  "('t, 'p) playlist_state \<Rightarrow> ('t, 'p) playlist_state \<Rightarrow> MeloPlaylistList \<Rightarrow> bool" where
  "list_kept s s' l = (list_holds_refs s' l \<and> list_contents s' l = list_contents s l)"

text \<open>
  The names \<^verbatim>\<open>add\<close> tries for a base name: the base name itself, then the base
  name with the suffix written for \<open>1\<close>, \<open>2\<close>, ...
\<close>

definition candidate :: "string \<Rightarrow> int \<Rightarrow> string" where
  "candidate nm k = (if k = 0 then nm else nm @ name_ext k)"

text \<open>
  What it means for a string to be the decimal numeral of a positive number,
  said without the function that prints it: the string is not empty, it
  does not start with the digit zero, and its characters are digits whose
  value, read from the left, is the number.
\<close>

definition digit_value :: "char \<rightharpoonup> nat" where
  "digit_value =
     [CHR ''0'' \<mapsto> 0, CHR ''1'' \<mapsto> 1, CHR ''2'' \<mapsto> 2, CHR ''3'' \<mapsto> 3, CHR ''4'' \<mapsto> 4,
      CHR ''5'' \<mapsto> 5, CHR ''6'' \<mapsto> 6, CHR ''7'' \<mapsto> 7, CHR ''8'' \<mapsto> 8, CHR ''9'' \<mapsto> 9]"

fun decimal_value_from :: "nat \<Rightarrow> string \<Rightarrow> nat option" where
  "decimal_value_from a [] = Some a"
| "decimal_value_from a (c # cs) =
     (case digit_value c of None \<Rightarrow> None | Some d \<Rightarrow> decimal_value_from (10 * a + d) cs)"

definition decimal_numeral :: "string \<Rightarrow> nat \<Rightarrow> bool" where
  "decimal_numeral ds k = (ds \<noteq> [] \<and> hd ds \<noteq> CHR ''0'' \<and> decimal_value_from 0 ds = Some k)"

text \<open>
  The operations that have defined behaviour in a state whose cells and items
  are in order: all but an \<^verbatim>\<open>add\<close> that is given no name, no full name and no
  path (it calls \<^verbatim>\<open>strlen (NULL)\<close>), and an \<^verbatim>\<open>add\<close> for which every name tried is
  taken (its counter overflows).
\<close>

fun op_defined :: "'t playlist_op \<Rightarrow> ('t, 'p) playlist_state \<Rightarrow> bool" where
  "op_defined (OpAdd nm fnm pth tgs cur) s =
     (\<exists>n k. base_name nm fnm pth = Some n \<and> 0 \<le> k \<and> k < 2147483647 \<and>
            names s (candidate n k) = None)"
| "op_defined x s = True"

text \<open>
  No call into the player while the playlist's mutex is held: \<open>held\<close> says
  whether the mutex is held before the first action.
\<close>

fun player_calls_unlocked :: "bool \<Rightarrow> ('t, 'p) playlist_action list \<Rightarrow> bool" where
  "player_calls_unlocked held [] = True"
| "player_calls_unlocked held (MutexLock # as) = player_calls_unlocked True as"
| "player_calls_unlocked held (MutexUnlock # as) = player_calls_unlocked False as"
| "player_calls_unlocked held (PlayerPlay p pth nm tgs ins # as) =
     (\<not> held \<and> player_calls_unlocked held as)"
| "player_calls_unlocked held (PlayerSetState p st # as) =
     (\<not> held \<and> player_calls_unlocked held as)"
| "player_calls_unlocked held (TagsSetCoverUrl tgs nm # as) = player_calls_unlocked held as"

text \<open>
  The state \<^verbatim>\<open>add\<close> leaves when it has found the name \<open>final_name\<close>: the new item,
  the new cell at the head of the list, the new entry of the hash table, and
  \<open>current\<close> if asked for.
\<close>

definition item_added ::
  "string \<Rightarrow> string option \<Rightarrow> string option \<Rightarrow> 't option \<Rightarrow> bool \<Rightarrow>
   ('t, 'p) playlist_state \<Rightarrow> ('t, 'p) playlist_state" where
  "item_added final_name fnm pth tgs is_current s =
     s\<lparr>items_heap := (items_heap s)(next_addr s \<mapsto>
          \<lparr>item_name = final_name, item_full_name = fnm, item_path = pth,
           item_tags = tgs, item_can_play = True, item_can_remove = True,
           item_ref_count = 1\<rparr>),
       next_addr := next_addr s + 2,
       playlist := (next_addr s + 1, next_addr s) # playlist s,
       names := (names s)(final_name \<mapsto> next_addr s + 1),
       current := (if is_current then Some (next_addr s + 1) else current s)\<rparr>"

text \<open>The actions of a successful \<^verbatim>\<open>add\<close>.\<close>

definition add_actions ::
  "('t option \<Rightarrow> bool) \<Rightarrow> string \<Rightarrow> 't option \<Rightarrow> ('t, 'p) playlist_state \<Rightarrow>
   ('t, 'p) playlist_action list" where
  "add_actions has_cover final_name tgs s =
     [MutexLock] @
     (if override_cover_url s \<and> has_cover tgs then [TagsSetCoverUrl tgs final_name] else []) @
     [MutexUnlock]"

subsection \<open>An example\<close>

text \<open>
  A playlist attached to the player \<open>7\<close>, after \<^verbatim>\<open>add\<close> of \<^verbatim>\<open>a\<close> as the current item
  and then \<^verbatim>\<open>add\<close> of \<^verbatim>\<open>b\<close>: item \<^verbatim>\<open>b\<close> is at the head of the list.
\<close>

definition playlist_ab :: "(nat, nat) playlist_state" where
  "playlist_ab =
     \<lparr>items_heap =
        [1 \<mapsto> \<lparr>item_name = ''a'', item_full_name = None, item_path = Some ''/a'',
               item_tags = None, item_can_play = True, item_can_remove = True,
               item_ref_count = 1\<rparr>,
         3 \<mapsto> \<lparr>item_name = ''b'', item_full_name = None, item_path = Some ''/b'',
               item_tags = Some 9, item_can_play = True, item_can_remove = True,
               item_ref_count = 1\<rparr>],
      next_addr = 5, playlist = [(4, 3), (2, 1)], names = [''a'' \<mapsto> 2, ''b'' \<mapsto> 4],
      current = Some 2, override_cover_url = False, player = Some 7\<rparr>"

text \<open>
  The playlist after \<^verbatim>\<open>add\<close> of \<^verbatim>\<open>a\<close>, \<^verbatim>\<open>add\<close> of \<^verbatim>\<open>c\<close> as the current item and \<^verbatim>\<open>add\<close>
  of \<^verbatim>\<open>b\<close>: from head to tail \<^verbatim>\<open>b\<close>, \<^verbatim>\<open>c\<close>, \<^verbatim>\<open>a\<close>.
\<close>

definition playlist_bca :: "(nat, nat) playlist_state" where
  "playlist_bca =
     \<lparr>items_heap =
        [1 \<mapsto> \<lparr>item_name = ''a'', item_full_name = None, item_path = Some ''/a'',
               item_tags = None, item_can_play = True, item_can_remove = True,
               item_ref_count = 1\<rparr>,
         3 \<mapsto> \<lparr>item_name = ''c'', item_full_name = None, item_path = Some ''/c'',
               item_tags = None, item_can_play = True, item_can_remove = True,
               item_ref_count = 1\<rparr>,
         5 \<mapsto> \<lparr>item_name = ''b'', item_full_name = None, item_path = Some ''/b'',
               item_tags = None, item_can_play = True, item_can_remove = True,
               item_ref_count = 1\<rparr>],
      next_addr = 7, playlist = [(6, 5), (4, 3), (2, 1)],
      names = [''a'' \<mapsto> 2, ''c'' \<mapsto> 4, ''b'' \<mapsto> 6],
      current = Some 4, override_cover_url = False, player = None\<rparr>"

text \<open>
  The list \<^verbatim>\<open>get_list\<close> returns in the first example state, the state it leaves
  (both items have one more reference), and the state after a later \<^verbatim>\<open>add\<close> of
  \<^verbatim>\<open>c\<close> and \<^verbatim>\<open>remove\<close> of \<^verbatim>\<open>a\<close>: item \<^verbatim>\<open>a\<close> has left the playlist and is kept
  alive by the reference of the list.
\<close>

definition ab_snapshot :: MeloPlaylistList where
  "ab_snapshot = \<lparr>list_items = [(5, 3), (6, 1)], list_current = Some ''a''\<rparr>"

definition playlist_ab_listed :: "(nat, nat) playlist_state" where
  "playlist_ab_listed =
     playlist_ab\<lparr>items_heap :=
        [1 \<mapsto> \<lparr>item_name = ''a'', item_full_name = None, item_path = Some ''/a'',
               item_tags = None, item_can_play = True, item_can_remove = True,
               item_ref_count = 2\<rparr>,
         3 \<mapsto> \<lparr>item_name = ''b'', item_full_name = None, item_path = Some ''/b'',
               item_tags = Some 9, item_can_play = True, item_can_remove = True,
               item_ref_count = 2\<rparr>],
       next_addr := 7\<rparr>"

definition playlist_cb :: "(nat, nat) playlist_state" where
  "playlist_cb =
     \<lparr>items_heap =
        [1 \<mapsto> \<lparr>item_name = ''a'', item_full_name = None, item_path = Some ''/a'',
               item_tags = None, item_can_play = True, item_can_remove = True,
               item_ref_count = 1\<rparr>,
         3 \<mapsto> \<lparr>item_name = ''b'', item_full_name = None, item_path = Some ''/b'',
               item_tags = Some 9, item_can_play = True, item_can_remove = True,
               item_ref_count = 2\<rparr>,
         7 \<mapsto> \<lparr>item_name = ''c'', item_full_name = None, item_path = Some ''/c'',
               item_tags = None, item_can_play = True, item_can_remove = True,
               item_ref_count = 1\<rparr>],
      next_addr = 9, playlist = [(8, 7), (4, 3)], names = [''b'' \<mapsto> 4, ''c'' \<mapsto> 8],
      current = None, override_cover_url = False, player = Some 7\<rparr>"

section \<open>Lemmas\<close>

subsection \<open>Event dispatcher\<close>

lemma register_all_Cons:
  "register_all (r # regs) st =
     (event_next_addr st #
        fst (register_all regs (snd (melo_event_register (fst r) (snd r) st))),
      snd (register_all regs (snd (melo_event_register (fst r) (snd r) st))))"
  by (cases r) (simp add: melo_event_register_def Let_def case_prod_beta)

lemma register_all_handles:
  "fst (register_all regs st) = [event_next_addr st ..< event_next_addr st + length regs]"
proof (induction regs arbitrary: st)
  case Nil
  then show ?case by simp
next
  case (Cons r regs)
  have "event_next_addr (snd (melo_event_register (fst r) (snd r) st)) = event_next_addr st + 1"
    by (simp add: melo_event_register_def Let_def)
  then show ?case
    by (simp add: register_all_Cons Cons.IH upt_rec)
qed

lemma register_all_clients:
  "melo_event_clients (snd (register_all regs st)) =
     rev (map (\<lambda>x. (fst x, \<lparr>callback = fst (snd x), user_data = snd (snd x)\<rparr>))
            (zip (fst (register_all regs st)) regs))
     @ melo_event_clients st"
proof (induction regs arbitrary: st)
  case Nil
  then show ?case by simp
next
  case (Cons r regs)
  have "melo_event_clients (snd (melo_event_register (fst r) (snd r) st)) =
          (event_next_addr st, \<lparr>callback = fst r, user_data = snd r\<rparr>) # melo_event_clients st"
    by (simp add: melo_event_register_def Let_def)
  then show ?case
    by (simp add: register_all_Cons Cons.IH)
qed

lemma called_clients_append:
  "called_clients (as @ bs) = called_clients as @ called_clients bs"
  by (induction as rule: called_clients.induct) simp_all

lemma called_clients_rev: "called_clients (rev as) = rev (called_clients as)"
  by (induction as rule: called_clients.induct) (simp_all add: called_clients_append)

lemma called_clients_calls:
  "length hs = length regs \<Longrightarrow>
   called_clients (map (client_call type event ident data) (zip hs regs)) = hs"
  by (induction hs regs rule: list_induct2) (simp_all add: client_call_def)

text \<open>
  C1 (as amended). After any sequence of registrations on a new dispatcher,
  \<^verbatim>\<open>melo_event_new\<close> takes the lock, calls the callback of every registered client
  exactly once, with the client's own handle and user data, the client
  registered last first and the client registered first last, releases the
  lock and then frees the data if a destructor was given. The handles are
  distinct, one for each registration.
\<close>

theorem publish_calls_every_client_once_newest_first:
  "melo_event_new type event ident data free_data_func (snd (register_all regs melo_event_init)) =
     [EventLock]
     @ rev (map (client_call type event ident data) (zip (fst (register_all regs melo_event_init)) regs))
     @ [EventUnlock]
     @ (case free_data_func of None \<Rightarrow> [] | Some f \<Rightarrow> [FreeData f data])
   \<and> called_clients (melo_event_new type event ident data free_data_func
        (snd (register_all regs melo_event_init))) = rev (fst (register_all regs melo_event_init))
   \<and> distinct (fst (register_all regs melo_event_init))
   \<and> length (fst (register_all regs melo_event_init)) = length regs"
proof -
  let ?hs = "fst (register_all regs melo_event_init)"
  let ?st = "snd (register_all regs melo_event_init)"
  have len: "length ?hs = length regs"
    by (simp add: register_all_handles)
  have dist: "distinct ?hs"
    by (simp add: register_all_handles)
  have clients: "melo_event_clients ?st =
      rev (map (\<lambda>x. (fst x, \<lparr>callback = fst (snd x), user_data = snd (snd x)\<rparr>)) (zip ?hs regs))"
    by (simp add: register_all_clients melo_event_init_def)
  have trace: "melo_event_new type event ident data free_data_func ?st =
     [EventLock] @ rev (map (client_call type event ident data) (zip ?hs regs))
     @ [EventUnlock] @ (case free_data_func of None \<Rightarrow> [] | Some f \<Rightarrow> [FreeData f data])"
    unfolding melo_event_new_def clients
    by (simp add: rev_map client_call_def case_prod_beta comp_def)
  have "called_clients (melo_event_new type event ident data free_data_func ?st) = rev ?hs"
    unfolding trace using len
    by (cases free_data_func)
       (simp_all add: called_clients_append called_clients_rev called_clients_calls)
  then show ?thesis using trace len dist by simp
qed

text \<open>
  C1 as stated fails: with two registered clients the callbacks are not called
  in the order of registration. The client registered first has the handle
  \<open>1\<close>, the second the handle \<open>2\<close>, and the second is called first.
\<close>

theorem publish_registration_order_counterexample:
  "fst (register_all [(1::nat, 10::nat), (2, 20)] melo_event_init) = [1, 2]
   \<and> called_clients
       (melo_event_new MELO_EVENT_TYPE_PLAYER 8 (Some ''player'') (5::nat) (None :: nat option)
          (snd (register_all [(1::nat, 10::nat), (2, 20)] melo_event_init))) = [2, 1]"
  by (simp add: melo_event_new_def melo_event_register_def melo_event_init_def)

subsection \<open>The name loop\<close>

declare name_loop.simps [simp del]

declare dec_digits.simps [simp del]

lemma name_loop_stop:
  "\<not> (0 < i \<and> tbl final_name \<noteq> None) \<Longrightarrow> name_loop tbl nm final_name i = Some (final_name, i)"
  by (subst name_loop.simps) auto

lemma name_loop_step:
  "0 < i \<Longrightarrow> i < 2147483647 \<Longrightarrow> tbl final_name \<noteq> None \<Longrightarrow>
   name_loop tbl nm final_name i = name_loop tbl nm (nm @ name_ext i) (i + 1)"
  by (subst name_loop.simps) simp

lemma name_loop_overflow:
  "2147483647 \<le> i \<Longrightarrow> tbl final_name \<noteq> None \<Longrightarrow> name_loop tbl nm final_name i = None"
  by (subst name_loop.simps) simp

subsection \<open>Lists of cells\<close>

lemma map_of_cell:
  "distinct (map fst l) \<Longrightarrow> (c, d) \<in> set l \<Longrightarrow> map_of l c = Some d"
  by simp

lemma map_of_cell_mem: "map_of l c = Some d \<Longrightarrow> (c, d) \<in> set l"
  by (rule map_of_SomeD)

lemma g_list_remove_filter:
  "distinct (map snd l) \<Longrightarrow> g_list_remove l d = filter (\<lambda>x. snd x \<noteq> d) l"
proof (induction l)
  case Nil
  then show ?case by simp
next
  case (Cons x l)
  show ?case
  proof (cases "snd x = d")
    case True
    with Cons.prems have "d \<notin> snd ` set l" by simp
    then have "\<forall>y \<in> set l. snd y \<noteq> d" by blast
    then have "filter (\<lambda>x. snd x \<noteq> d) l = l" by (simp add: filter_id_conv)
    with True show ?thesis by simp
  next
    case False
    with Cons show ?thesis by simp
  qed
qed

lemma filter_by_cell:
  assumes "distinct (map fst l)" "distinct (map snd l)" "(c, d) \<in> set l"
  shows "filter (\<lambda>x. snd x \<noteq> d) l = filter (\<lambda>x. fst x \<noteq> c) l"
proof (rule filter_cong [OF refl])
  fix x assume x: "x \<in> set l"
  have "snd x = d \<longleftrightarrow> x = (c, d)"
    using assms x by (metis distinct_map inj_onD snd_conv)
  moreover have "fst x = c \<longleftrightarrow> x = (c, d)"
    using assms x by (metis distinct_map inj_onD fst_conv)
  ultimately show "(snd x \<noteq> d) = (fst x \<noteq> c)" by simp
qed

lemma g_list_next_mem: "g_list_next l c = Some n \<Longrightarrow> n \<in> fst ` set l"
  by (induction l c rule: g_list_next.induct) (auto split: if_splits)

lemma g_list_prev_mem: "g_list_prev l c = Some n \<Longrightarrow> n \<in> fst ` set l"
  by (induction l c rule: g_list_prev.induct) (auto split: if_splits)

lemma g_list_next_split:
  "distinct (map fst (xs @ (c, d) # ys)) \<Longrightarrow>
   g_list_next (xs @ (c, d) # ys) c = (case ys of [] \<Rightarrow> None | y # _ \<Rightarrow> Some (fst y))"
proof (induction xs)
  case Nil
  then show ?case by (cases ys) simp_all
next
  case (Cons x xs)
  then have "fst x \<noteq> c" by auto
  moreover obtain z zs where "xs @ (c, d) # ys = z # zs" by (cases xs) auto
  ultimately show ?case using Cons by simp
qed

lemma g_list_prev_absent: "c \<notin> fst ` set l \<Longrightarrow> g_list_prev l c = None"
  by (induction l c rule: g_list_prev.induct) auto

lemma g_list_prev_split:
  "distinct (map fst (xs @ (c, d) # ys)) \<Longrightarrow>
   g_list_prev (xs @ (c, d) # ys) c = (if xs = [] then None else Some (fst (last xs)))"
proof (induction xs)
  case Nil
  then have "c \<notin> fst ` set ys" by auto
  then have "g_list_prev ys c = None" by (rule g_list_prev_absent)
  with Nil show ?case by (cases ys) auto
next
  case (Cons x xs)
  show ?case
  proof (cases xs)
    case Nil
    then show ?thesis by simp
  next
    case (Cons x' xs')
    with Cons.prems have "fst x' \<noteq> c" by auto
    with Cons Cons.IH Cons.prems show ?thesis by simp
  qed
qed

subsection \<open>Well-formed states\<close>

lemma playlist_wf_init: "playlist_wf (melo_playlist_simple_init p)"
  by (simp add: playlist_wf_def melo_playlist_simple_init_def)

lemma wf_distinct_cells: "playlist_wf s \<Longrightarrow> distinct (map fst (playlist s))"
  by (simp add: playlist_wf_def)

lemma wf_distinct_items: "playlist_wf s \<Longrightarrow> distinct (map snd (playlist s))"
  by (simp add: playlist_wf_def)

lemma wf_cell:
  assumes "playlist_wf s" "(c, d) \<in> set (playlist s)"
  shows "\<exists>it. items_heap s d = Some it \<and> 0 < item_ref_count it \<and>
              names s (item_name it) = Some c \<and> c < next_addr s \<and> d < next_addr s \<and>
              map_of (playlist s) c = Some d"
proof -
  from assms have "fst (c, d) < next_addr s \<and> snd (c, d) < next_addr s \<and>
      (\<exists>it. items_heap s (snd (c, d)) = Some it \<and> 0 < item_ref_count it \<and>
            names s (item_name it) = Some (fst (c, d)))"
    unfolding playlist_wf_def by blast
  moreover have "map_of (playlist s) c = Some d"
    by (rule map_of_cell [OF wf_distinct_cells [OF assms(1)] assms(2)])
  ultimately show ?thesis by auto
qed

lemma wf_names:
  assumes "playlist_wf s" "names s k = Some c"
  shows "\<exists>d it. map_of (playlist s) c = Some d \<and> (c, d) \<in> set (playlist s) \<and>
                items_heap s d = Some it \<and> item_name it = k \<and> 0 < item_ref_count it"
proof -
  from assms obtain it where it: "cell_item s c = Some it" "item_name it = k"
    unfolding playlist_wf_def by blast
  then obtain d where d: "map_of (playlist s) c = Some d" "items_heap s d = Some it"
    by (auto simp: cell_item_def split: option.splits)
  then have mem: "(c, d) \<in> set (playlist s)" by (simp add: map_of_cell_mem)
  from wf_cell [OF assms(1) mem] d it show ?thesis using mem by auto
qed

lemma wf_current:
  assumes "playlist_wf s" "current s = Some c"
  shows "\<exists>d. map_of (playlist s) c = Some d \<and> (c, d) \<in> set (playlist s)"
proof -
  from assms have "c \<in> fst ` set (playlist s)" unfolding playlist_wf_def by blast
  then obtain d where "(c, d) \<in> set (playlist s)" by force
  with wf_cell [OF assms(1) this] show ?thesis by auto
qed

lemma wf_heap_bound: "playlist_wf s \<Longrightarrow> items_heap s a = Some it \<Longrightarrow> a < next_addr s"
  unfolding playlist_wf_def by blast

subsection \<open>Items\<close>

lemma ref_unref:
  assumes "items_heap s d = Some it" "0 < item_ref_count it"
  shows "\<exists>s1. melo_playlist_item_ref d s = Some s1 \<and>
     melo_playlist_item_unref d (s1\<lparr>current := c\<rparr>) = Some (s\<lparr>current := c\<rparr>)"
proof -
  have "(items_heap s)(d \<mapsto> it) = items_heap s" using assms by (simp add: fun_upd_idem)
  then show ?thesis using assms
    by (simp add: melo_playlist_item_ref_def melo_playlist_item_unref_def)
qed

subsection \<open>Play\<close>

lemma play_absent:
  "names s nm = None \<Longrightarrow> melo_playlist_simple_play nm s = Some (False, s, [MutexLock, MutexUnlock])"
  by (simp add: melo_playlist_simple_play_def)

lemma play_present:
  assumes "playlist_wf s" "names s nm = Some e"
  shows "\<exists>d it. map_of (playlist s) e = Some d \<and> items_heap s d = Some it \<and> item_name it = nm \<and>
     melo_playlist_simple_play nm s =
       Some (True, s\<lparr>current := Some e\<rparr>,
             [MutexLock, MutexUnlock] @
             (case player s of None \<Rightarrow> []
              | Some p \<Rightarrow> [PlayerPlay p (item_path it) (item_name it) (item_tags it) False]))"
proof -
  from wf_names [OF assms] obtain d it where
    d: "map_of (playlist s) e = Some d" "items_heap s d = Some it" "item_name it = nm"
       "0 < item_ref_count it"
    by blast
  from ref_unref [OF d(2) d(4), of "Some e"] obtain s1 where
    s1: "melo_playlist_item_ref d s = Some s1"
        "melo_playlist_item_unref d (s1\<lparr>current := Some e\<rparr>) = Some (s\<lparr>current := Some e\<rparr>)"
    by blast
  have h1: "items_heap (s1\<lparr>current := Some e\<rparr>) d = Some (it\<lparr>item_ref_count := item_ref_count it + 1\<rparr>)"
    using s1(1) d(2) by (auto simp: melo_playlist_item_ref_def)
  have p1: "player (s1\<lparr>current := Some e\<rparr>) = player s"
    using s1(1) d(2) by (auto simp: melo_playlist_item_ref_def)
  have "melo_playlist_simple_play nm s =
       Some (True, s\<lparr>current := Some e\<rparr>,
             [MutexLock, MutexUnlock] @
             (case player s of None \<Rightarrow> []
              | Some p \<Rightarrow> [PlayerPlay p (item_path it) (item_name it) (item_tags it) False]))"
    unfolding melo_playlist_simple_play_def
    using assms(2) d(1) s1 h1 p1 by (simp add: Let_def split: option.splits)
  with d show ?thesis by blast
qed

subsection \<open>Remove\<close>

lemma remove_absent:
  "names s nm = None \<Longrightarrow>
   melo_playlist_simple_remove nm s = Some (False, s, [MutexLock, MutexUnlock])"
  by (simp add: melo_playlist_simple_remove_def)

lemma remove_present:
  assumes "playlist_wf s" "names s nm = Some e"
  shows "\<exists>d it. map_of (playlist s) e = Some d \<and> (e, d) \<in> set (playlist s) \<and>
     items_heap s d = Some it \<and> item_name it = nm \<and> 0 < item_ref_count it \<and>
     melo_playlist_simple_remove nm s =
       Some (True,
             s\<lparr>current := (if current s = Some e then None else current s),
               playlist := filter (\<lambda>x. fst x \<noteq> e) (playlist s),
               names := (names s)(nm := None),
               items_heap := (if item_ref_count it \<le> 1 then (items_heap s)(d := None)
                              else (items_heap s)(d \<mapsto> it\<lparr>item_ref_count := item_ref_count it - 1\<rparr>))\<rparr>,
             [MutexLock] @
             (if current s = Some e then [PlayerSetState (player s) MELO_PLAYER_STATE_NONE] else []) @
             [MutexUnlock])"
proof -
  from wf_names [OF assms] obtain d it where
    d: "map_of (playlist s) e = Some d" "(e, d) \<in> set (playlist s)"
       "items_heap s d = Some it" "item_name it = nm" "0 < item_ref_count it"
    by blast
  have rm: "g_list_remove (playlist s) d = filter (\<lambda>x. fst x \<noteq> e) (playlist s)"
    using g_list_remove_filter [OF wf_distinct_items [OF assms(1)]]
          filter_by_cell [OF wf_distinct_cells [OF assms(1)] wf_distinct_items [OF assms(1)] d(2)]
    by simp
  have "melo_playlist_simple_remove nm s =
       Some (True,
             s\<lparr>current := (if current s = Some e then None else current s),
               playlist := filter (\<lambda>x. fst x \<noteq> e) (playlist s),
               names := (names s)(nm := None),
               items_heap := (if item_ref_count it \<le> 1 then (items_heap s)(d := None)
                              else (items_heap s)(d \<mapsto> it\<lparr>item_ref_count := item_ref_count it - 1\<rparr>))\<rparr>,
             [MutexLock] @
             (if current s = Some e then [PlayerSetState (player s) MELO_PLAYER_STATE_NONE] else []) @
             [MutexUnlock])"
  proof (cases "current s = Some e")
    case True
    then show ?thesis
      unfolding melo_playlist_simple_remove_def
      using assms(2) d rm by (simp add: Let_def melo_playlist_item_unref_def)
  next
    case False
    then have "Some e \<noteq> current s" by auto
    with False show ?thesis
      unfolding melo_playlist_simple_remove_def
      using assms(2) d rm by (simp add: Let_def melo_playlist_item_unref_def)
  qed
  with d show ?thesis by blast
qed

subsection \<open>Cover\<close>

lemma get_cover_absent:
  "names s nm = None \<Longrightarrow>
   melo_playlist_simple_get_cover gc nm data type s = Some (False, data, type, [MutexLock, MutexUnlock])"
  by (simp add: melo_playlist_simple_get_cover_def)

lemma get_cover_present:
  assumes "playlist_wf s" "names s nm = Some e"
  shows "\<exists>d it. map_of (playlist s) e = Some d \<and> items_heap s d = Some it \<and> item_name it = nm \<and>
     melo_playlist_simple_get_cover gc nm data type s =
       Some (True,
             (case item_tags it of None \<Rightarrow> data | Some t \<Rightarrow> fst (gc t type)),
             (case item_tags it of None \<Rightarrow> type | Some t \<Rightarrow> snd (gc t type)),
             [MutexLock, MutexUnlock])"
proof -
  from wf_names [OF assms] obtain d it where
    d: "map_of (playlist s) e = Some d" "items_heap s d = Some it" "item_name it = nm"
    by blast
  have "melo_playlist_simple_get_cover gc nm data type s =
       Some (True,
             (case item_tags it of None \<Rightarrow> data | Some t \<Rightarrow> fst (gc t type)),
             (case item_tags it of None \<Rightarrow> type | Some t \<Rightarrow> snd (gc t type)),
             [MutexLock, MutexUnlock])"
    unfolding melo_playlist_simple_get_cover_def
    using assms(2) d by (simp add: case_prod_beta split: option.splits)
  with d show ?thesis by blast
qed

subsection \<open>Previous and next\<close>

lemma get_prev_no_current:
  "current s = None \<Longrightarrow>
   melo_playlist_simple_get_prev name_out tags_out do_set s =
     Some (None, name_out, tags_out, s, [MutexLock, MutexUnlock])"
  by (simp add: melo_playlist_simple_get_prev_def)

lemma get_next_no_current:
  "current s = None \<Longrightarrow>
   melo_playlist_simple_get_next name_out tags_out do_set s =
     Some (None, name_out, tags_out, s, [MutexLock, MutexUnlock])"
  by (simp add: melo_playlist_simple_get_next_def)

lemma get_prev_at:
  assumes "playlist_wf s" "current s = Some c" "playlist s = xs @ (c, d) # ys"
  shows "(ys = [] \<longrightarrow>
            melo_playlist_simple_get_prev name_out tags_out do_set s =
              Some (None, name_out, tags_out, s, [MutexLock, MutexUnlock])) \<and>
         (\<forall>n dn ys'. ys = (n, dn) # ys' \<longrightarrow>
            (\<exists>it. items_heap s dn = Some it \<and>
               melo_playlist_simple_get_prev name_out tags_out do_set s =
                 Some (item_path it, store_name name_out it, store_tags tags_out it,
                       (if do_set then s\<lparr>current := Some n\<rparr> else s),
                       [MutexLock, MutexUnlock])))"
proof -
  have dist: "distinct (map fst (xs @ (c, d) # ys))"
    using wf_distinct_cells [OF assms(1)] assms(3) by simp
  have cur: "map_of (playlist s) c = Some d"
    using wf_cell [OF assms(1), of c d] assms(3) by auto
  have nxt: "g_list_next (playlist s) c = (case ys of [] \<Rightarrow> None | y # _ \<Rightarrow> Some (fst y))"
    using g_list_next_split [OF dist] assms(3) by simp
  have a: "ys = [] \<longrightarrow>
            melo_playlist_simple_get_prev name_out tags_out do_set s =
              Some (None, name_out, tags_out, s, [MutexLock, MutexUnlock])"
    unfolding melo_playlist_simple_get_prev_def using assms(2) cur nxt by simp
  have b: "\<exists>it. items_heap s dn = Some it \<and>
               melo_playlist_simple_get_prev name_out tags_out do_set s =
                 Some (item_path it, store_name name_out it, store_tags tags_out it,
                       (if do_set then s\<lparr>current := Some n\<rparr> else s),
                       [MutexLock, MutexUnlock])"
    if ys: "ys = (n, dn) # ys'" for n dn ys'
  proof -
    have "(n, dn) \<in> set (playlist s)" using assms(3) ys by simp
    from wf_cell [OF assms(1) this] obtain it where
      it: "items_heap s dn = Some it" "map_of (playlist s) n = Some dn" by blast
    have "melo_playlist_simple_get_prev name_out tags_out do_set s =
                 Some (item_path it, store_name name_out it, store_tags tags_out it,
                       (if do_set then s\<lparr>current := Some n\<rparr> else s),
                       [MutexLock, MutexUnlock])"
      unfolding melo_playlist_simple_get_prev_def using assms(2) cur nxt ys it by simp
    with it show ?thesis by blast
  qed
  from a b show ?thesis by blast
qed

lemma get_next_at:
  assumes "playlist_wf s" "current s = Some c" "playlist s = xs @ (c, d) # ys"
  shows "(xs = [] \<longrightarrow>
            melo_playlist_simple_get_next name_out tags_out do_set s =
              Some (None, name_out, tags_out, s, [MutexLock, MutexUnlock])) \<and>
         (\<forall>n dn xs'. xs = xs' @ [(n, dn)] \<longrightarrow>
            (\<exists>it. items_heap s dn = Some it \<and>
               melo_playlist_simple_get_next name_out tags_out do_set s =
                 Some (item_path it, store_name name_out it, store_tags tags_out it,
                       s\<lparr>current := Some n\<rparr>,
                       [MutexLock, MutexUnlock])))"
proof -
  have dist: "distinct (map fst (xs @ (c, d) # ys))"
    using wf_distinct_cells [OF assms(1)] assms(3) by simp
  have cur: "map_of (playlist s) c = Some d"
    using wf_cell [OF assms(1), of c d] assms(3) by auto
  have prv: "g_list_prev (playlist s) c = (if xs = [] then None else Some (fst (last xs)))"
    using g_list_prev_split [OF dist] assms(3) by simp
  have a: "xs = [] \<longrightarrow>
            melo_playlist_simple_get_next name_out tags_out do_set s =
              Some (None, name_out, tags_out, s, [MutexLock, MutexUnlock])"
    unfolding melo_playlist_simple_get_next_def using assms(2) cur prv by simp
  have b: "\<exists>it. items_heap s dn = Some it \<and>
               melo_playlist_simple_get_next name_out tags_out do_set s =
                 Some (item_path it, store_name name_out it, store_tags tags_out it,
                       s\<lparr>current := Some n\<rparr>,
                       [MutexLock, MutexUnlock])"
    if xs: "xs = xs' @ [(n, dn)]" for n dn xs'
  proof -
    have "(n, dn) \<in> set (playlist s)" using assms(3) xs by simp
    from wf_cell [OF assms(1) this] obtain it where
      it: "items_heap s dn = Some it" "map_of (playlist s) n = Some dn" by blast
    have "melo_playlist_simple_get_next name_out tags_out do_set s =
                 Some (item_path it, store_name name_out it, store_tags tags_out it,
                       s\<lparr>current := Some n\<rparr>,
                       [MutexLock, MutexUnlock])"
      unfolding melo_playlist_simple_get_next_def using assms(2) cur prv xs it by simp
    with it show ?thesis by blast
  qed
  from a b show ?thesis by blast
qed

subsection \<open>Names tried by add\<close>

lemma dec_digits_small: "n < 10 \<Longrightarrow> dec_digits n = [digit_char n]"
  by (subst dec_digits.simps) simp

lemma dec_digits_large:
  "\<not> n < 10 \<Longrightarrow> dec_digits n = dec_digits (n div 10) @ [digit_char (n mod 10)]"
  by (subst dec_digits.simps) simp

lemma dec_digits_length: "0 < m \<Longrightarrow> n < 10 ^ m \<Longrightarrow> length (dec_digits n) \<le> m"
proof (induction m arbitrary: n)
  case 0
  then show ?case by simp
next
  case (Suc m)
  show ?case
  proof (cases "n < 10")
    case True
    then show ?thesis by (simp add: dec_digits_small)
  next
    case False
    then have m: "0 < m" using Suc.prems by (cases m) auto
    have "n div 10 < 10 ^ m" using Suc.prems by (simp add: less_mult_imp_div_less mult.commute)
    from Suc.IH [OF m this] False show ?thesis by (simp add: dec_digits_large)
  qed
qed

lemma candidate_zero: "candidate nm 0 = nm"
  by (simp add: candidate_def)

lemma candidate_suffix:
  assumes "1 \<le> k" "k < 100000000"
  shows "candidate nm k = nm @ ''_'' @ dec_digits (nat k)"
proof -
  have "nat k < 10 ^ 8" using assms by simp
  then have "length (dec_digits (nat k)) \<le> 8" by (rule dec_digits_length [rotated]) simp
  then show ?thesis using assms
    by (simp add: candidate_def name_ext_def print_gint_def MELO_PLAYLIST_SIMPLE_NAME_EXT_SIZE_def)
qed

lemma digit_value_digit_char: "d < 10 \<Longrightarrow> digit_value (digit_char d) = Some d"
proof -
  assume "d < 10"
  then have "d \<in> {0, 1, 2, 3, 4, 5, 6, 7, 8, 9}" by auto
  then show ?thesis by (auto simp: digit_value_def digit_char_def)
qed

lemma digit_value_less: "digit_value c = Some d \<Longrightarrow> d < 10 \<and> c = digit_char d"
  by (auto simp: digit_value_def digit_char_def split: if_splits)

lemma digit_char_zero: "digit_char 0 = CHR ''0''"
  by (simp add: digit_char_def)

lemma digit_char_not_zero: "0 < d \<Longrightarrow> d < 10 \<Longrightarrow> digit_char d \<noteq> CHR ''0''"
proof -
  assume "0 < d" "d < 10"
  then have "d \<in> {1, 2, 3, 4, 5, 6, 7, 8, 9}" by auto
  then show ?thesis by (auto simp: digit_char_def)
qed

lemma decimal_value_from_append:
  "decimal_value_from a (xs @ [c]) =
     (case decimal_value_from a xs of
        None \<Rightarrow> None
      | Some v \<Rightarrow> (case digit_value c of None \<Rightarrow> None | Some d \<Rightarrow> Some (10 * v + d)))"
  by (induction xs arbitrary: a) (auto split: option.splits)

lemma dec_digits_not_empty: "dec_digits n \<noteq> []"
  by (cases "n < 10") (simp_all add: dec_digits_small dec_digits_large)

lemma decimal_value_from_dec_digits: "decimal_value_from 0 (dec_digits n) = Some n"
proof (induction n rule: dec_digits.induct)
  case (1 n)
  show ?case
  proof (cases "n < 10")
    case True
    then show ?thesis by (simp add: dec_digits_small digit_value_digit_char)
  next
    case False
    from 1 [OF False] have "decimal_value_from 0 (dec_digits (n div 10)) = Some (n div 10)" .
    then show ?thesis using False
      by (simp add: dec_digits_large decimal_value_from_append digit_value_digit_char)
  qed
qed

lemma hd_dec_digits: "0 < n \<Longrightarrow> hd (dec_digits n) \<noteq> CHR ''0''"
proof (induction n rule: dec_digits.induct)
  case (1 n)
  show ?case
  proof (cases "n < 10")
    case True
    with 1(2) show ?thesis by (simp add: dec_digits_small digit_char_not_zero)
  next
    case False
    then have "0 < n div 10" by simp
    from 1(1) [OF False this] False show ?thesis
      by (simp add: dec_digits_large dec_digits_not_empty)
  qed
qed

lemma decimal_numeral_dec_digits: "0 < n \<Longrightarrow> decimal_numeral (dec_digits n) n"
  by (simp add: decimal_numeral_def dec_digits_not_empty hd_dec_digits decimal_value_from_dec_digits)

text \<open>A positive number has one decimal numeral only.\<close>

lemma decimal_numeral_printed: "decimal_numeral ds k \<Longrightarrow> ds = dec_digits k \<and> 0 < k"
proof (induction ds arbitrary: k rule: rev_induct)
  case Nil
  then show ?case by (simp add: decimal_numeral_def)
next
  case (snoc c xs)
  from snoc.prems have hd: "hd (xs @ [c]) \<noteq> CHR ''0''"
    and val: "decimal_value_from 0 (xs @ [c]) = Some k"
    by (simp_all add: decimal_numeral_def)
  from val obtain v d where v: "decimal_value_from 0 xs = Some v"
    and d: "digit_value c = Some d" and k: "k = 10 * v + d"
    by (auto simp: decimal_value_from_append split: option.splits)
  from digit_value_less [OF d] have d10: "d < 10" and c: "c = digit_char d" by simp_all
  show ?case
  proof (cases "xs = []")
    case True
    with v have "v = 0" by simp
    with k have kd: "k = d" by simp
    have "d \<noteq> 0"
    proof
      assume "d = 0"
      with True hd c show False by (simp add: digit_char_zero)
    qed
    with kd d10 True c show ?thesis by (simp add: dec_digits_small)
  next
    case False
    with hd have "hd xs \<noteq> CHR ''0''" by simp
    with False v have "decimal_numeral xs v" by (simp add: decimal_numeral_def)
    from snoc.IH [OF this] have xs: "xs = dec_digits v" and pos: "0 < v" by simp_all
    from k pos d10 have "\<not> k < 10" "k div 10 = v" "k mod 10 = d" by simp_all
    then have "dec_digits k = dec_digits v @ [digit_char d]" by (simp add: dec_digits_large)
    with xs c k pos show ?thesis by simp
  qed
qed

lemma decimal_numeral_unique:
  "decimal_numeral ds k \<Longrightarrow> decimal_numeral ds' k \<Longrightarrow> ds = ds'"
  using decimal_numeral_printed [of ds k] decimal_numeral_printed [of ds' k] by simp

lemma candidate_decimal:
  assumes "1 \<le> k" "k < 100000000"
  shows "\<exists>ds. candidate nm k = nm @ ''_'' @ ds \<and> decimal_numeral ds (nat k)"
proof -
  from assms have "0 < nat k" by simp
  then have "decimal_numeral (dec_digits (nat k)) (nat k)" by (rule decimal_numeral_dec_digits)
  with candidate_suffix [OF assms, of nm] show ?thesis by blast
qed

lemma dec_digits_length_eq:
  "10 ^ m \<le> n \<Longrightarrow> n < 10 ^ Suc m \<Longrightarrow> length (dec_digits n) = Suc m"
proof (induction m arbitrary: n)
  case 0
  then show ?case by (simp add: dec_digits_small)
next
  case (Suc m)
  have "(10 :: nat) \<le> 10 ^ Suc m" by simp
  with Suc.prems have large: "\<not> n < 10" by linarith
  have "10 ^ m \<le> n div 10" using Suc.prems by (simp add: less_eq_div_iff_mult_less_eq)
  moreover have "n div 10 < 10 ^ Suc m" using Suc.prems by (simp add: less_mult_imp_div_less mult.commute)
  ultimately have "length (dec_digits (n div 10)) = Suc m" by (rule Suc.IH)
  with large show ?case by (simp add: dec_digits_large)
qed

text \<open>
  From the try \<open>100000000\<close> on the suffix is cut to the nine characters that
  the buffer holds, and the name is one that was tried before.
\<close>

lemma name_ext_8_digits:
  assumes "10000000 \<le> j" "j < 100000000"
  shows "name_ext j = CHR ''_'' # dec_digits (nat j)"
proof -
  have "10 ^ 7 \<le> nat j" "nat j < 10 ^ Suc 7" using assms by simp_all
  then have "length (dec_digits (nat j)) = Suc 7" by (rule dec_digits_length_eq)
  then show ?thesis using assms
    by (simp add: name_ext_def print_gint_def MELO_PLAYLIST_SIMPLE_NAME_EXT_SIZE_def)
qed

lemma name_ext_cut:
  assumes "10000000 \<le> j" "j < 100000000" "print_gint k = dec_digits (nat j) @ rest"
  shows "name_ext k = name_ext j"
proof -
  have "10 ^ 7 \<le> nat j" "nat j < 10 ^ Suc 7" using assms by simp_all
  then have "length (dec_digits (nat j)) = Suc 7" by (rule dec_digits_length_eq)
  then have "name_ext k = CHR ''_'' # dec_digits (nat j)" using assms(3)
    by (simp add: name_ext_def MELO_PLAYLIST_SIMPLE_NAME_EXT_SIZE_def)
  with name_ext_8_digits [OF assms(1,2)] show ?thesis by simp
qed

lemma candidate_cut:
  assumes "100000000 \<le> k" "k \<le> 2147483647"
  shows "\<exists>j. 0 < j \<and> j < k \<and> candidate nm k = candidate nm j"
proof (cases "k < 1000000000")
  case True
  let ?j = "k div 10"
  have j: "10000000 \<le> ?j" "?j < 100000000" using assms True by simp_all
  have n: "nat ?j = nat k div 10" by (simp add: nat_div_distrib)
  have "\<not> nat k < 10" using assms by simp
  then have "print_gint k = dec_digits (nat ?j) @ [digit_char (nat k mod 10)]"
    using assms n by (simp add: print_gint_def dec_digits_large)
  from name_ext_cut [OF j this] have "name_ext k = name_ext ?j" .
  moreover have "0 < ?j" "?j < k" using assms j by simp_all
  ultimately show ?thesis using assms by (intro exI [of _ ?j]) (simp add: candidate_def)
next
  case False
  let ?j = "k div 100"
  have j: "10000000 \<le> ?j" "?j < 100000000" using assms False by simp_all
  have n: "nat ?j = nat k div 10 div 10" by (simp add: nat_div_distrib div_mult2_eq [symmetric])
  have "\<not> nat k < 10" "\<not> nat k div 10 < 10" using assms by simp_all
  then have "print_gint k =
      dec_digits (nat ?j) @ [digit_char (nat k div 10 mod 10), digit_char (nat k mod 10)]"
    using assms n by (simp add: print_gint_def dec_digits_large)
  from name_ext_cut [OF j this] have "name_ext k = name_ext ?j" .
  moreover have "0 < ?j" "?j < k" using assms j by simp_all
  ultimately show ?thesis using assms by (intro exI [of _ ?j]) (simp add: candidate_def)
qed

lemma first_free_below:
  assumes "0 \<le> k" "k < 2147483647" "tbl (candidate nm k) = None"
    "\<forall>m. 0 \<le> m \<and> m < k \<longrightarrow> tbl (candidate nm m) \<noteq> None"
  shows "k < 100000000"
proof (rule ccontr)
  assume "\<not> k < 100000000"
  with assms(2) have "100000000 \<le> k" "k \<le> 2147483647" by simp_all
  from candidate_cut [OF this, of nm] obtain j where "0 < j" "j < k" "candidate nm k = candidate nm j"
    by blast
  with assms(3,4) show False by auto
qed

lemma name_loop_found:
  assumes "0 \<le> j" "j \<le> k" "k < 2147483647" "tbl (candidate nm k) = None"
    "\<forall>m. j \<le> m \<and> m < k \<longrightarrow> tbl (candidate nm m) \<noteq> None"
  shows "name_loop tbl nm (candidate nm j) (j + 1) = Some (candidate nm k, k + 1)"
  using assms
proof (induction "nat (k - j)" arbitrary: j)
  case 0
  then have "j = k" by simp
  with 0 show ?case by (simp add: name_loop_stop)
next
  case (Suc x)
  then have lt: "j < k" by linarith
  with Suc.prems have taken: "tbl (candidate nm j) \<noteq> None" by simp
  have b: "j + 1 < 2147483647" using Suc.prems lt by linarith
  have c: "candidate nm (j + 1) = nm @ name_ext (j + 1)"
    using Suc.prems by (simp add: candidate_def)
  have "name_loop tbl nm (candidate nm j) (j + 1) =
        name_loop tbl nm (candidate nm (j + 1)) (j + 1 + 1)"
    using name_loop_step [of "j + 1" tbl "candidate nm j" nm] Suc.prems taken b c by simp
  also have "\<dots> = Some (candidate nm k, k + 1)"
  proof (rule Suc.hyps(1))
    show "x = nat (k - (j + 1))" using Suc.hyps(2) by linarith
    show "0 \<le> j + 1" using Suc.prems by simp
    show "j + 1 \<le> k" using lt by simp
    show "k < 2147483647" by fact
    show "tbl (candidate nm k) = None" by fact
    show "\<forall>m. j + 1 \<le> m \<and> m < k \<longrightarrow> tbl (candidate nm m) \<noteq> None"
      using Suc.prems(5) by simp
  qed
  finally show ?case .
qed

text \<open>When every name tried is taken, the loop goes on until \<^verbatim>\<open>i++\<close> overflows.\<close>

lemma name_loop_exhausted:
  assumes "0 \<le> j" "j < 2147483647"
    "\<forall>m. j \<le> m \<and> m < 2147483647 \<longrightarrow> tbl (candidate nm m) \<noteq> None"
  shows "name_loop tbl nm (candidate nm j) (j + 1) = None"
  using assms
proof (induction "nat (2147483646 - j)" arbitrary: j)
  case 0
  then have j: "j = 2147483646" by linarith
  with 0 have taken: "tbl (candidate nm 2147483646) \<noteq> None" by simp
  have "name_loop tbl nm (candidate nm 2147483646) 2147483647 = None"
    using name_loop_overflow [of 2147483647 tbl "candidate nm 2147483646" nm] taken by simp
  then show ?case using j by simp
next
  case (Suc x)
  then have lt: "j < 2147483646" by linarith
  from Suc.prems have taken: "tbl (candidate nm j) \<noteq> None" by simp
  have b: "j + 1 < 2147483647" using lt by linarith
  have c: "candidate nm (j + 1) = nm @ name_ext (j + 1)"
    using Suc.prems by (simp add: candidate_def)
  have "name_loop tbl nm (candidate nm j) (j + 1) =
        name_loop tbl nm (candidate nm (j + 1)) (j + 1 + 1)"
    using name_loop_step [of "j + 1" tbl "candidate nm j" nm] Suc.prems taken b c by simp
  also have "\<dots> = None"
  proof (rule Suc.hyps(1))
    show "x = nat (2147483646 - (j + 1))" using Suc.hyps(2) by linarith
    show "0 \<le> j + 1" using Suc.prems by simp
    show "j + 1 < 2147483647" using lt by simp
    show "\<forall>m. j + 1 \<le> m \<and> m < 2147483647 \<longrightarrow> tbl (candidate nm m) \<noteq> None"
      using Suc.prems(3) by simp
  qed
  finally show ?case .
qed

subsection \<open>Add\<close>

lemma add_no_name:
  "base_name nm fnm pth = None \<Longrightarrow> melo_playlist_simple_add hc nm fnm pth tgs cur s = None"
  by (simp add: melo_playlist_simple_add_def)

lemma add_loop_result:
  assumes "base_name nm fnm pth = Some n" "name_loop (names s) n n 1 = Some (final_name, i)"
  shows "melo_playlist_simple_add hc nm fnm pth tgs cur s =
     (if i < 0 then Some (False, s, [MutexLock, MutexUnlock])
      else Some (True, item_added final_name fnm pth tgs cur s, add_actions hc final_name tgs s))"
  using assms
  by (simp add: melo_playlist_simple_add_def item_added_def add_actions_def Let_def)

text \<open>
  When every name tried is taken, the counter of \<^verbatim>\<open>add\<close> overflows: the call has
  no defined result.
\<close>

lemma add_exhausted:
  assumes "base_name nm fnm pth = Some n"
    "\<forall>m. 0 \<le> m \<and> m < 2147483647 \<longrightarrow> names s (candidate n m) \<noteq> None"
  shows "melo_playlist_simple_add hc nm fnm pth tgs cur s = None"
proof -
  have "name_loop (names s) n (candidate n 0) (0 + 1) = None"
    by (rule name_loop_exhausted) (use assms(2) in simp_all)
  then have "name_loop (names s) n n 1 = None"
    by (simp add: candidate_zero)
  with assms(1) show ?thesis by (simp add: melo_playlist_simple_add_def)
qed

lemma add_first_free:
  assumes "base_name nm fnm pth = Some n" "0 \<le> k" "k < 2147483647"
    "names s (candidate n k) = None"
    "\<forall>m. 0 \<le> m \<and> m < k \<longrightarrow> names s (candidate n m) \<noteq> None"
  shows "melo_playlist_simple_add hc nm fnm pth tgs cur s =
     Some (True, item_added (candidate n k) fnm pth tgs cur s, add_actions hc (candidate n k) tgs s)"
proof -
  have "name_loop (names s) n (candidate n 0) (0 + 1) = Some (candidate n k, k + 1)"
    by (rule name_loop_found) (use assms in simp_all)
  then have "name_loop (names s) n n 1 = Some (candidate n k, k + 1)"
    by (simp add: candidate_zero)
  from add_loop_result [OF assms(1) this] assms(2) show ?thesis by simp
qed

lemma first_free_candidate:
  assumes "\<not> (\<forall>m. 0 \<le> m \<and> m < 2147483647 \<longrightarrow> tbl (candidate n m) \<noteq> None)"
  shows "\<exists>k. 0 \<le> k \<and> k < 2147483647 \<and> tbl (candidate n k) = None \<and>
             (\<forall>m. 0 \<le> m \<and> m < k \<longrightarrow> tbl (candidate n m) \<noteq> None)"
proof -
  from assms obtain m where m: "0 \<le> m" "m < 2147483647" "tbl (candidate n m) = None" by auto
  define P where "P = (\<lambda>x :: nat. tbl (candidate n (int x)) = None)"
  have "P (nat m)" using m by (simp add: P_def)
  then have l: "P (LEAST x. P x)" by (rule LeastI)
  have least: "(LEAST x. P x) \<le> y" if "P y" for y using that by (rule Least_le)
  let ?k = "int (LEAST x. P x)"
  have "?k \<le> m" using least [of "nat m"] \<open>P (nat m)\<close> m(1) by linarith
  moreover have "tbl (candidate n ?k) = None" using l by (simp add: P_def)
  moreover have "\<forall>j. 0 \<le> j \<and> j < ?k \<longrightarrow> tbl (candidate n j) \<noteq> None"
  proof (intro allI impI)
    fix j assume j: "0 \<le> j \<and> j < ?k"
    show "tbl (candidate n j) \<noteq> None"
    proof
      assume "tbl (candidate n j) = None"
      then have "P (nat j)" using j by (simp add: P_def)
      from least [OF this] j show False by linarith
    qed
  qed
  ultimately show ?thesis using m(2) by (intro exI [of _ ?k]) auto
qed

lemma add_returns:
  assumes b: "base_name nm fnm pth = Some n"
    and r: "melo_playlist_simple_add hc nm fnm pth tgs cur s = Some (r, s', tr)"
  shows "r \<and> (\<exists>k. 0 \<le> k \<and> k < 100000000 \<and> names s (candidate n k) = None \<and>
                (\<forall>m. 0 \<le> m \<and> m < k \<longrightarrow> names s (candidate n m) \<noteq> None) \<and>
                s' = item_added (candidate n k) fnm pth tgs cur s \<and>
                tr = add_actions hc (candidate n k) tgs s)"
proof (cases "\<forall>m. 0 \<le> m \<and> m < 2147483647 \<longrightarrow> names s (candidate n m) \<noteq> None")
  case True
  from add_exhausted [OF b True, of hc tgs cur] r show ?thesis by simp
next
  case False
  from first_free_candidate [OF False] obtain k where
    k: "0 \<le> k" "k < 2147483647" "names s (candidate n k) = None"
       "\<forall>m. 0 \<le> m \<and> m < k \<longrightarrow> names s (candidate n m) \<noteq> None"
    by blast
  from add_first_free [OF b k, of hc tgs cur] r
  have "r" "s' = item_added (candidate n k) fnm pth tgs cur s"
    "tr = add_actions hc (candidate n k) tgs s"
    by simp_all
  moreover from k have "k < 100000000" by (rule first_free_below)
  ultimately show ?thesis using k by blast
qed

lemma add_cases:
  assumes "base_name nm fnm pth = Some n"
  shows "melo_playlist_simple_add hc nm fnm pth tgs cur s = None \<or>
    (\<exists>final_name. names s final_name = None \<and>
       melo_playlist_simple_add hc nm fnm pth tgs cur s =
         Some (True, item_added final_name fnm pth tgs cur s, add_actions hc final_name tgs s))"
proof (cases "\<forall>m. 0 \<le> m \<and> m < 2147483647 \<longrightarrow> names s (candidate n m) \<noteq> None")
  case True
  from add_exhausted [OF assms True] show ?thesis by simp
next
  case False
  from first_free_candidate [OF False] obtain k where
    k: "0 \<le> k" "k < 2147483647" "names s (candidate n k) = None"
       "\<forall>m. 0 \<le> m \<and> m < k \<longrightarrow> names s (candidate n m) \<noteq> None"
    by blast
  from add_first_free [OF assms k] k(3) show ?thesis by blast
qed

lemma add_prepends:
  assumes "melo_playlist_simple_add hc nm fnm pth tgs cur s = Some (True, s', tr)"
  shows "playlist s' = (next_addr s + 1, next_addr s) # playlist s"
proof (cases "base_name nm fnm pth")
  case None
  from add_no_name [OF None, of hc tgs cur s] assms show ?thesis by simp
next
  case (Some n)
  from add_cases [OF Some, of hc tgs cur s] show ?thesis
  proof (elim disjE exE conjE)
    assume "melo_playlist_simple_add hc nm fnm pth tgs cur s = None"
    with assms show ?thesis by simp
  next
    fix final_name
    assume "melo_playlist_simple_add hc nm fnm pth tgs cur s =
         Some (True, item_added final_name fnm pth tgs cur s, add_actions hc final_name tgs s)"
    with assms have "s' = item_added final_name fnm pth tgs cur s" by simp
    then show ?thesis by (simp add: item_added_def)
  qed
qed

lemma dec_digits_2: "10 \<le> n \<Longrightarrow> n < 100 \<Longrightarrow> dec_digits n = [digit_char (n div 10), digit_char (n mod 10)]"
  by (simp add: dec_digits_large dec_digits_small)

lemma candidate_1: "candidate nm 1 = nm @ ''_1''"
  by (simp add: candidate_suffix dec_digits_small digit_char_def)

lemma candidate_2: "candidate nm 2 = nm @ ''_2''"
  by (simp add: candidate_suffix dec_digits_small digit_char_def)

lemma candidate_10: "candidate nm 10 = nm @ ''_10''"
  by (simp add: candidate_suffix dec_digits_2 digit_char_def)

lemma candidate_42: "candidate nm 42 = nm @ ''_42''"
  by (simp add: candidate_suffix dec_digits_2 digit_char_def)

lemma candidate_99999999: "candidate nm 99999999 = nm @ ''_99999999''"
  by (simp add: candidate_suffix dec_digits_large dec_digits_small digit_char_def)

lemma item_added_names:
  "names (item_added final_name fnm pth tgs cur s) = (names s)(final_name \<mapsto> next_addr s + 1)"
  by (simp add: item_added_def)

lemma item_added_playlist:
  "playlist (item_added final_name fnm pth tgs cur s) = (next_addr s + 1, next_addr s) # playlist s"
  by (simp add: item_added_def)

lemma item_added_cell_item:
  "cell_item (item_added final_name fnm pth tgs cur s) (next_addr s + 1) =
     Some \<lparr>item_name = final_name, item_full_name = fnm, item_path = pth,
           item_tags = tgs, item_can_play = True, item_can_remove = True,
           item_ref_count = 1\<rparr>"
  by (simp add: item_added_def cell_item_def)

lemma item_added_playlist_names:
  assumes "playlist_wf s"
  shows "playlist_names (item_added final_name fnm pth tgs cur s) = Some final_name # playlist_names s"
proof -
  have "\<forall>x \<in> set (playlist s). snd x \<noteq> next_addr s"
    using assms unfolding playlist_wf_def by fastforce
  then show ?thesis by (simp add: playlist_names_def item_added_def)
qed

lemma three_tracks:
  assumes "base_name nm1 fnm1 pth1 = Some ''Track''" "base_name nm2 fnm2 pth2 = Some ''Track''"
    "base_name nm3 fnm3 pth3 = Some ''Track''"
  shows "\<exists>s1 t1 s2 t2 s3 t3.
        melo_playlist_simple_add hc nm1 fnm1 pth1 tgs1 cur1 (melo_playlist_simple_init p) = Some (True, s1, t1) \<and>
        playlist_names s1 = [Some ''Track''] \<and>
        melo_playlist_simple_add hc nm2 fnm2 pth2 tgs2 cur2 s1 = Some (True, s2, t2) \<and>
        playlist_names s2 = [Some ''Track_1'', Some ''Track''] \<and>
        melo_playlist_simple_add hc nm3 fnm3 pth3 tgs3 cur3 s2 = Some (True, s3, t3) \<and>
        playlist_names s3 = [Some ''Track_2'', Some ''Track_1'', Some ''Track'']"
proof -
  let ?s0 = "melo_playlist_simple_init p :: ('a, 'b) playlist_state"
  define s1 where "s1 = item_added ''Track'' fnm1 pth1 tgs1 cur1 ?s0"
  define s2 where "s2 = item_added ''Track_1'' fnm2 pth2 tgs2 cur2 s1"
  define s3 where "s3 = item_added ''Track_2'' fnm3 pth3 tgs3 cur3 s2"
  have n0: "names ?s0 = Map.empty" and p0: "playlist_names ?s0 = []"
    by (simp_all add: melo_playlist_simple_init_def playlist_names_def)
  have a1: "melo_playlist_simple_add hc nm1 fnm1 pth1 tgs1 cur1 ?s0 =
      Some (True, s1, add_actions hc ''Track'' tgs1 ?s0)"
    using add_first_free [OF assms(1), of 0 ?s0 hc tgs1 cur1] n0
    by (simp add: candidate_zero s1_def)
  have n1: "names s1 = [''Track'' \<mapsto> next_addr ?s0 + 1]"
    by (simp add: s1_def item_added_names n0)
  have below1: "\<forall>m. 0 \<le> m \<and> m < 1 \<longrightarrow> names s1 (candidate ''Track'' m) \<noteq> None"
  proof (intro allI impI)
    fix m :: int assume "0 \<le> m \<and> m < 1"
    then have "m = 0" by linarith
    then show "names s1 (candidate ''Track'' m) \<noteq> None"
      by (simp add: n1 candidate_zero)
  qed
  have free1: "names s1 (candidate ''Track'' 1) = None"
    by (simp add: n1 candidate_1)
  have a2: "melo_playlist_simple_add hc nm2 fnm2 pth2 tgs2 cur2 s1 =
      Some (True, s2, add_actions hc ''Track_1'' tgs2 s1)"
    using add_first_free [OF assms(2) _ _ free1 below1, of hc tgs2 cur2]
    by (simp add: candidate_1 s2_def)
  have n2: "names s2 = [''Track'' \<mapsto> next_addr ?s0 + 1, ''Track_1'' \<mapsto> next_addr s1 + 1]"
    by (simp add: s2_def item_added_names n1)
  have below: "\<forall>m. 0 \<le> m \<and> m < 2 \<longrightarrow> names s2 (candidate ''Track'' m) \<noteq> None"
  proof (intro allI impI)
    fix m :: int assume "0 \<le> m \<and> m < 2"
    then have "m = 0 \<or> m = 1" by linarith
    then show "names s2 (candidate ''Track'' m) \<noteq> None"
      by (auto simp: n2 candidate_zero candidate_1)
  qed
  have free: "names s2 (candidate ''Track'' 2) = None"
    by (simp add: n2 candidate_2)
  have a3: "melo_playlist_simple_add hc nm3 fnm3 pth3 tgs3 cur3 s2 =
      Some (True, s3, add_actions hc ''Track_2'' tgs3 s2)"
    using add_first_free [OF assms(3) _ _ free below, of hc tgs3 cur3]
    by (simp add: candidate_2 s3_def)
  have pn: "playlist_names s1 = [Some ''Track'']"
    "playlist_names s2 = [Some ''Track_1'', Some ''Track'']"
    "playlist_names s3 = [Some ''Track_2'', Some ''Track_1'', Some ''Track'']"
    by (simp_all add: s1_def s2_def s3_def playlist_names_def item_added_def
          melo_playlist_simple_init_def)
  from a1 a2 a3 pn show ?thesis by blast
qed

subsection \<open>Operations keep states well-formed\<close>

lemma playlist_wfI:
  assumes "distinct (map fst (playlist s))" "distinct (map snd (playlist s))"
    "\<And>c d. (c, d) \<in> set (playlist s) \<Longrightarrow>
       c < next_addr s \<and> d < next_addr s \<and>
       (\<exists>it. items_heap s d = Some it \<and> 0 < item_ref_count it \<and> names s (item_name it) = Some c)"
    "\<And>k c. names s k = Some c \<Longrightarrow> \<exists>it. cell_item s c = Some it \<and> item_name it = k"
    "\<And>c. current s = Some c \<Longrightarrow> c \<in> fst ` set (playlist s)"
    "\<And>a it. items_heap s a = Some it \<Longrightarrow> a < next_addr s"
  shows "playlist_wf s"
  unfolding playlist_wf_def
proof (intro conjI allI impI ballI)
  fix x assume "x \<in> set (playlist s)"
  then have "(fst x, snd x) \<in> set (playlist s)" by simp
  from assms(3) [OF this]
  show "fst x < next_addr s" "snd x < next_addr s"
    "\<exists>it. items_heap s (snd x) = Some it \<and> 0 < item_ref_count it \<and>
          names s (item_name it) = Some (fst x)"
    by simp_all
next
  fix a assume "a \<in> dom (items_heap s)"
  then show "a < next_addr s" using assms(6) by blast
qed (use assms in simp_all)

lemma wf_names_cell_item:
  "playlist_wf s \<Longrightarrow> names s k = Some c \<Longrightarrow> \<exists>it. cell_item s c = Some it \<and> item_name it = k"
  unfolding playlist_wf_def by blast

lemma wf_current_mem: "playlist_wf s \<Longrightarrow> current s = Some c \<Longrightarrow> c \<in> fst ` set (playlist s)"
  unfolding playlist_wf_def by blast

lemma wf_set_current:
  assumes "playlist_wf s" "c \<in> fst ` set (playlist s)"
  shows "playlist_wf (s\<lparr>current := Some c\<rparr>)"
  using assms unfolding playlist_wf_def cell_item_def by (simp cong: option.case_cong)

lemma item_added_wf:
  assumes wf: "playlist_wf s" and free: "names s final_name = None"
  shows "playlist_wf (item_added final_name fnm pth tgs cur s)"
proof (rule playlist_wfI)
  let ?s = "item_added final_name fnm pth tgs cur s"
  let ?a = "next_addr s"
  have old: "c < ?a \<and> d < ?a" if "(c, d) \<in> set (playlist s)" for c d
    using wf_cell [OF wf that] by blast
  have pl: "playlist ?s = (?a + 1, ?a) # playlist s" by (rule item_added_playlist)
  have nm: "names ?s = (names s)(final_name \<mapsto> ?a + 1)" by (rule item_added_names)
  have hp: "items_heap ?s = (items_heap s)(?a \<mapsto>
          \<lparr>item_name = final_name, item_full_name = fnm, item_path = pth,
           item_tags = tgs, item_can_play = True, item_can_remove = True,
           item_ref_count = 1\<rparr>)"
    and nx: "next_addr ?s = ?a + 2"
    and cu: "current ?s = (if cur then Some (?a + 1) else current s)"
    by (simp_all add: item_added_def)
  have "?a + 1 \<notin> fst ` set (playlist s)" using old by force
  then show "distinct (map fst (playlist ?s))"
    using wf_distinct_cells [OF wf] by (simp add: pl)
  have "?a \<notin> snd ` set (playlist s)" using old by force
  then show "distinct (map snd (playlist ?s))"
    using wf_distinct_items [OF wf] by (simp add: pl)
  show "c < next_addr ?s \<and> d < next_addr ?s \<and>
       (\<exists>it. items_heap ?s d = Some it \<and> 0 < item_ref_count it \<and> names ?s (item_name it) = Some c)"
    if "(c, d) \<in> set (playlist ?s)" for c d
  proof (cases "(c, d) = (?a + 1, ?a)")
    case True
    then show ?thesis by (simp add: hp nx nm)
  next
    case False
    with that have mem: "(c, d) \<in> set (playlist s)" by (auto simp: pl)
    from wf_cell [OF wf mem] obtain it where
      it: "items_heap s d = Some it" "0 < item_ref_count it" "names s (item_name it) = Some c"
          "c < ?a" "d < ?a"
      by blast
    from it(3) free have "item_name it \<noteq> final_name" by auto
    with it show ?thesis by (simp add: hp nx nm)
  qed
  show "\<exists>it. cell_item ?s c = Some it \<and> item_name it = k" if "names ?s k = Some c" for k c
  proof (cases "k = final_name")
    case True
    with that have "c = ?a + 1" by (simp add: nm)
    with True show ?thesis
      using item_added_cell_item [of final_name fnm pth tgs cur s] by simp
  next
    case False
    with that have "names s k = Some c" by (simp add: nm)
    from wf_names [OF wf this] obtain d it where
      d: "map_of (playlist s) c = Some d" "(c, d) \<in> set (playlist s)"
         "items_heap s d = Some it" "item_name it = k"
      by blast
    from old [OF d(2)] have "c \<noteq> ?a + 1" "d \<noteq> ?a" by simp_all
    with d show ?thesis by (simp add: cell_item_def pl hp)
  qed
  show "c \<in> fst ` set (playlist ?s)" if "current ?s = Some c" for c
  proof -
    from that have "c = ?a + 1 \<or> current s = Some c" by (auto simp: cu split: if_splits)
    then show ?thesis using wf_current_mem [OF wf, of c] by (auto simp: pl)
  qed
  show "a < next_addr ?s" if "items_heap ?s a = Some it" for a it
  proof (cases "a = ?a")
    case True
    then show ?thesis by (simp add: nx)
  next
    case False
    with that have "items_heap s a = Some it" by (simp add: hp)
    from wf_heap_bound [OF wf this] show ?thesis by (simp add: nx)
  qed
qed

lemma map_of_filter_other:
  "c \<noteq> e \<Longrightarrow> map_of (filter (\<lambda>x. fst x \<noteq> e) l) c = map_of l c"
  by (induction l) auto

lemma same_cell:
  "distinct (map fst l) \<Longrightarrow> (c, d) \<in> set l \<Longrightarrow> (c, d') \<in> set l \<Longrightarrow> d = d'"
  by (metis map_of_cell option.inject)

lemma same_item:
  "distinct (map snd l) \<Longrightarrow> (c, d) \<in> set l \<Longrightarrow> (c', d) \<in> set l \<Longrightarrow> c = c'"
  by (metis distinct_map inj_onD prod.inject snd_conv)

lemma item_removed_wf:
  assumes wf: "playlist_wf s" and nm: "names s nm = Some e"
    and mem: "(e, d) \<in> set (playlist s)"
    and heap: "\<forall>a. a \<noteq> d \<longrightarrow> h a = items_heap s a"
  shows "playlist_wf
     (s\<lparr>current := (if current s = Some e then None else current s),
        playlist := filter (\<lambda>x. fst x \<noteq> e) (playlist s),
        names := (names s)(nm := None),
        items_heap := h\<rparr>)"
    (is "playlist_wf ?s")
proof (rule playlist_wfI)
  have pl: "playlist ?s = filter (\<lambda>x. fst x \<noteq> e) (playlist s)"
    and nms: "names ?s = (names s)(nm := None)"
    and hp: "items_heap ?s = h" and nx: "next_addr ?s = next_addr s"
    and cu: "current ?s = (if current s = Some e then None else current s)"
    by simp_all
  note dc = wf_distinct_cells [OF wf] and di = wf_distinct_items [OF wf]
  from wf_names [OF wf nm] obtain d0 it0 where
    "(e, d0) \<in> set (playlist s)" "items_heap s d0 = Some it0" "item_name it0 = nm"
    by blast
  with same_cell [OF dc mem] have it0: "items_heap s d = Some it0" "item_name it0 = nm"
    by auto
  show "distinct (map fst (playlist ?s))" using dc by (simp add: pl distinct_map_filter)
  show "distinct (map snd (playlist ?s))" using di by (simp add: pl distinct_map_filter)
  show "c < next_addr ?s \<and> d' < next_addr ?s \<and>
       (\<exists>it. items_heap ?s d' = Some it \<and> 0 < item_ref_count it \<and> names ?s (item_name it) = Some c)"
    if "(c, d') \<in> set (playlist ?s)" for c d'
  proof -
    from that have m: "(c, d') \<in> set (playlist s)" and ce: "c \<noteq> e" by (simp_all add: pl)
    from wf_cell [OF wf m] obtain it where
      it: "items_heap s d' = Some it" "0 < item_ref_count it" "names s (item_name it) = Some c"
          "c < next_addr s" "d' < next_addr s"
      by blast
    have "d' \<noteq> d" using same_item [OF di m, of e] mem ce by auto
    then have "h d' = Some it" using heap it(1) by simp
    moreover have "item_name it \<noteq> nm" using it(3) nm ce by auto
    ultimately show ?thesis using it by (simp add: hp nx nms)
  qed
  show "\<exists>it. cell_item ?s c = Some it \<and> item_name it = k" if "names ?s k = Some c" for k c
  proof -
    from that have k: "k \<noteq> nm" "names s k = Some c" by (simp_all add: nms split: if_splits)
    from wf_names [OF wf k(2)] obtain d2 it2 where
      d2: "map_of (playlist s) c = Some d2" "(c, d2) \<in> set (playlist s)"
          "items_heap s d2 = Some it2" "item_name it2 = k"
      by blast
    have ce: "c \<noteq> e"
    proof
      assume "c = e"
      with same_cell [OF dc mem, of d2] d2(2) have "d2 = d" by simp
      with d2(3,4) it0 k(1) show False by simp
    qed
    have "d2 \<noteq> d" using same_item [OF di d2(2), of e] mem ce by auto
    then have "h d2 = Some it2" using heap d2(3) by simp
    moreover have "map_of (playlist ?s) c = Some d2"
      by (simp add: pl map_of_filter_other [OF ce] d2(1))
    ultimately show ?thesis using d2(4) by (simp add: cell_item_def hp)
  qed
  show "c \<in> fst ` set (playlist ?s)" if "current ?s = Some c" for c
  proof -
    from that have c: "current s = Some c" "c \<noteq> e" by (auto simp: cu split: if_splits)
    from wf_current_mem [OF wf c(1)] c(2) show ?thesis by (auto simp: pl)
  qed
  show "a < next_addr ?s" if "items_heap ?s a = Some it" for a it
  proof (cases "a = d")
    case True
    with wf_cell [OF wf mem] show ?thesis by (auto simp: nx)
  next
    case False
    with that heap have "items_heap s a = Some it" by (simp add: hp)
    from wf_heap_bound [OF wf this] show ?thesis by (simp add: nx)
  qed
qed

subsection \<open>Copies of the list\<close>

lemma copy_deep_ref:
  assumes "\<forall>x \<in> set l. items_heap s (snd x) \<noteq> None"
  shows "\<exists>l' h. g_list_copy_deep_ref l s =
            Some (l', s\<lparr>items_heap := h, next_addr := next_addr s + length l\<rparr>) \<and>
          map snd l' = map snd l \<and>
          (\<forall>a. h a = map_option
                 (\<lambda>it. it\<lparr>item_ref_count := item_ref_count it + count_list (map snd l) a\<rparr>)
                 (items_heap s a))"
  using assms
proof (induction l arbitrary: s)
  case Nil
  have "s\<lparr>items_heap := items_heap s, next_addr := next_addr s + length ([] :: (addr \<times> addr) list)\<rparr> = s"
    by simp
  moreover have "\<forall>a. items_heap s a = map_option
                 (\<lambda>it. it\<lparr>item_ref_count := item_ref_count it + count_list (map snd ([] :: (addr \<times> addr) list)) a\<rparr>)
                 (items_heap s a)"
    by (simp add: option.map_ident)
  moreover have "g_list_copy_deep_ref [] s = Some ([], s)" by simp
  ultimately have "g_list_copy_deep_ref [] s =
      Some ([], s\<lparr>items_heap := items_heap s, next_addr := next_addr s + length ([] :: (addr \<times> addr) list)\<rparr>) \<and>
      map snd ([] :: (addr \<times> addr) list) = map snd ([] :: (addr \<times> addr) list) \<and>
      (\<forall>a. items_heap s a = map_option
                 (\<lambda>it. it\<lparr>item_ref_count := item_ref_count it + count_list (map snd ([] :: (addr \<times> addr) list)) a\<rparr>)
                 (items_heap s a))"
    by simp
  then show ?case by blast
next
  case (Cons x l)
  from Cons.prems obtain it where it: "items_heap s (snd x) = Some it" by auto
  define h1 where "h1 = (items_heap s)(snd x \<mapsto> it\<lparr>item_ref_count := item_ref_count it + 1\<rparr>)"
  define s1 where "s1 = s\<lparr>items_heap := h1\<rparr>"
  define s2 where "s2 = s1\<lparr>next_addr := next_addr s1 + 1\<rparr>"
  have r: "melo_playlist_item_ref (snd x) s = Some s1"
    using it by (simp add: melo_playlist_item_ref_def s1_def h1_def)
  have live: "\<forall>y \<in> set l. items_heap s2 (snd y) \<noteq> None"
    using Cons.prems by (simp add: s2_def s1_def h1_def)
  from Cons.IH [OF live] obtain l' h where
    ih: "g_list_copy_deep_ref l s2 =
            Some (l', s2\<lparr>items_heap := h, next_addr := next_addr s2 + length l\<rparr>)"
        "map snd l' = map snd l"
        "\<forall>a. h a = map_option
                 (\<lambda>it. it\<lparr>item_ref_count := item_ref_count it + count_list (map snd l) a\<rparr>)
                 (items_heap s2 a)"
    by blast
  have st: "s2\<lparr>items_heap := h, next_addr := next_addr s2 + length l\<rparr> =
      s\<lparr>items_heap := h, next_addr := next_addr s + length (x # l)\<rparr>"
    by (simp add: s2_def s1_def)
  have res: "g_list_copy_deep_ref (x # l) s =
      Some ((next_addr s1, snd x) # l', s\<lparr>items_heap := h, next_addr := next_addr s + length (x # l)\<rparr>)"
    using r ih(1) st by (simp add: s2_def)
  have hp: "\<forall>a. h a = map_option
                 (\<lambda>it. it\<lparr>item_ref_count := item_ref_count it + count_list (map snd (x # l)) a\<rparr>)
                 (items_heap s a)"
  proof
    fix a
    show "h a = map_option
                 (\<lambda>it. it\<lparr>item_ref_count := item_ref_count it + count_list (map snd (x # l)) a\<rparr>)
                 (items_heap s a)"
    proof (cases "a = snd x")
      case True
      then show ?thesis using ih(3) it by (simp add: s2_def s1_def h1_def)
    next
      case False
      then show ?thesis using ih(3) by (simp add: s2_def s1_def h1_def)
    qed
  qed
  have "map snd ((next_addr s1, snd x) # l') = map snd (x # l)" using ih(2) by simp
  with res hp show ?case by blast
qed

lemma count_list_distinct:
  "distinct xs \<Longrightarrow> count_list xs a = (if a \<in> set xs then 1 else 0)"
  by (induction xs) auto

lemma get_list_result:
  assumes wf: "playlist_wf s"
  shows "\<exists>l h. melo_playlist_simple_get_list s =
           Some (\<lparr>list_items = l,
                  list_current = (case current s of None \<Rightarrow> None
                                  | Some c \<Rightarrow> map_option item_name (cell_item s c))\<rparr>,
                 s\<lparr>items_heap := h, next_addr := next_addr s + length (playlist s)\<rparr>,
                 [MutexLock, MutexUnlock]) \<and>
          map snd l = map snd (playlist s) \<and>
          (\<forall>a. h a = map_option
                 (\<lambda>it. it\<lparr>item_ref_count := item_ref_count it +
                                (if a \<in> snd ` set (playlist s) then 1 else 0)\<rparr>)
                 (items_heap s a))"
proof -
  have live: "\<forall>x \<in> set (playlist s). items_heap s (snd x) \<noteq> None"
  proof
    fix x assume "x \<in> set (playlist s)"
    then have "(fst x, snd x) \<in> set (playlist s)" by simp
    from wf_cell [OF wf this] show "items_heap s (snd x) \<noteq> None" by auto
  qed
  from copy_deep_ref [OF live] obtain l h where
    c: "g_list_copy_deep_ref (playlist s) s =
            Some (l, s\<lparr>items_heap := h, next_addr := next_addr s + length (playlist s)\<rparr>)"
       "map snd l = map snd (playlist s)"
       "\<forall>a. h a = map_option
                 (\<lambda>it. it\<lparr>item_ref_count := item_ref_count it + count_list (map snd (playlist s)) a\<rparr>)
                 (items_heap s a)"
    by blast
  have h: "\<forall>a. h a = map_option
                 (\<lambda>it. it\<lparr>item_ref_count := item_ref_count it +
                                (if a \<in> snd ` set (playlist s) then 1 else 0)\<rparr>)
                 (items_heap s a)"
    using c(3) count_list_distinct [OF wf_distinct_items [OF wf]] by simp
  let ?s1 = "s\<lparr>items_heap := h, next_addr := next_addr s + length (playlist s)\<rparr>"
  have cur: "(case current ?s1 of
                 None \<Rightarrow> Some None
               | Some c \<Rightarrow> do {
                   d \<leftarrow> map_of (playlist ?s1) c;
                   item \<leftarrow> items_heap ?s1 d;
                   Some (Some (item_name item))
                 }) = Some (case current s of None \<Rightarrow> None
                                  | Some c \<Rightarrow> map_option item_name (cell_item s c))"
  proof (cases "current s")
    case None
    then show ?thesis by simp
  next
    case (Some c)
    from wf_current [OF wf Some] obtain d where
      d: "map_of (playlist s) c = Some d" "(c, d) \<in> set (playlist s)" by blast
    from wf_cell [OF wf d(2)] obtain it where it: "items_heap s d = Some it" by blast
    show ?thesis using Some d(1) it h by (simp add: cell_item_def)
  qed
  have "melo_playlist_simple_get_list s =
           Some (\<lparr>list_items = l,
                  list_current = (case current s of None \<Rightarrow> None
                                  | Some c \<Rightarrow> map_option item_name (cell_item s c))\<rparr>,
                 ?s1, [MutexLock, MutexUnlock])"
    unfolding melo_playlist_simple_get_list_def using c(1) cur by simp
  with c(2) h show ?thesis by blast
qed

lemma more_refs_wf:
  assumes wf: "playlist_wf s"
    and h: "\<forall>a. h a = map_option (\<lambda>it. it\<lparr>item_ref_count := item_ref_count it + f a\<rparr>) (items_heap s a)"
    and n: "next_addr s \<le> n"
  shows "playlist_wf (s\<lparr>items_heap := h, next_addr := n\<rparr>)" (is "playlist_wf ?s")
proof (rule playlist_wfI)
  show "distinct (map fst (playlist ?s))" using wf_distinct_cells [OF wf] by simp
  show "distinct (map snd (playlist ?s))" using wf_distinct_items [OF wf] by simp
  show "c < next_addr ?s \<and> d < next_addr ?s \<and>
       (\<exists>it. items_heap ?s d = Some it \<and> 0 < item_ref_count it \<and> names ?s (item_name it) = Some c)"
    if "(c, d) \<in> set (playlist ?s)" for c d
  proof -
    from that have "(c, d) \<in> set (playlist s)" by simp
    from wf_cell [OF wf this] obtain it where
      "items_heap s d = Some it" "0 < item_ref_count it" "names s (item_name it) = Some c"
          "c < next_addr s" "d < next_addr s"
      by blast
    then show ?thesis using h n by simp
  qed
  show "\<exists>it. cell_item ?s c = Some it \<and> item_name it = k" if "names ?s k = Some c" for k c
  proof -
    from that have "names s k = Some c" by simp
    from wf_names [OF wf this] obtain d it where
      "map_of (playlist s) c = Some d" "items_heap s d = Some it" "item_name it = k"
      by blast
    then show ?thesis using h by (simp add: cell_item_def)
  qed
  show "c \<in> fst ` set (playlist ?s)" if "current ?s = Some c" for c
    using wf_current_mem [OF wf, of c] that by simp
  show "a < next_addr ?s" if "items_heap ?s a = Some it" for a it
  proof -
    from that h obtain it0 where "items_heap s a = Some it0" by auto
    from wf_heap_bound [OF wf this] n show ?thesis by simp
  qed
qed

subsection \<open>Every operation\<close>

lemma get_prev_shape:
  assumes "melo_playlist_simple_get_prev name_out tags_out do_set s = Some (pth, n', t', s', tr)"
  shows "s' = s \<or> (\<exists>n. n \<in> fst ` set (playlist s) \<and> s' = s\<lparr>current := Some n\<rparr>)"
  using assms g_list_next_mem [of "playlist s"]
  unfolding melo_playlist_simple_get_prev_def
  by (auto split: option.splits bind_splits if_splits)

lemma get_next_shape:
  assumes "melo_playlist_simple_get_next name_out tags_out do_set s = Some (pth, n', t', s', tr)"
  shows "s' = s \<or> (\<exists>n. n \<in> fst ` set (playlist s) \<and> s' = s\<lparr>current := Some n\<rparr>)"
  using assms g_list_prev_mem [of "playlist s"]
  unfolding melo_playlist_simple_get_next_def
  by (auto split: option.splits bind_splits if_splits)

lemma get_prev_defined:
  assumes wf: "playlist_wf s"
  shows "melo_playlist_simple_get_prev name_out tags_out do_set s \<noteq> None"
proof (cases "current s")
  case None
  then show ?thesis by (simp add: get_prev_no_current)
next
  case (Some c)
  from wf_current [OF wf Some] obtain d where "(c, d) \<in> set (playlist s)" by blast
  then obtain xs ys where pl: "playlist s = xs @ (c, d) # ys" by (auto simp: in_set_conv_decomp)
  from get_prev_at [OF wf Some pl, of name_out tags_out do_set] show ?thesis
    by (cases ys) auto
qed

lemma get_next_defined:
  assumes wf: "playlist_wf s"
  shows "melo_playlist_simple_get_next name_out tags_out do_set s \<noteq> None"
proof (cases "current s")
  case None
  then show ?thesis by (simp add: get_next_no_current)
next
  case (Some c)
  from wf_current [OF wf Some] obtain d where "(c, d) \<in> set (playlist s)" by blast
  then obtain xs ys where pl: "playlist s = xs @ (c, d) # ys" by (auto simp: in_set_conv_decomp)
  from get_next_at [OF wf Some pl, of name_out tags_out do_set] show ?thesis
    by (cases xs rule: rev_cases) auto
qed

lemma apply_op_defined:
  assumes wf: "playlist_wf s" and d: "op_defined x s"
  shows "apply_op hc x s \<noteq> None"
proof (cases x)
  case (OpAdd nm fnm pth tgs cur)
  with d obtain n j where b: "base_name nm fnm pth = Some n"
    and "0 \<le> j" "j < 2147483647" "names s (candidate n j) = None"
    by auto
  then have "\<not> (\<forall>m. 0 \<le> m \<and> m < 2147483647 \<longrightarrow> names s (candidate n m) \<noteq> None)" by blast
  from first_free_candidate [OF this] obtain k where
    k: "0 \<le> k" "k < 2147483647" "names s (candidate n k) = None"
       "\<forall>m. 0 \<le> m \<and> m < k \<longrightarrow> names s (candidate n m) \<noteq> None"
    by blast
  from add_first_free [OF b k, of hc tgs cur] OpAdd show ?thesis by simp
next
  case (OpGetPrev name_out tags_out do_set)
  with get_prev_defined [OF wf, of name_out tags_out do_set] show ?thesis by auto
next
  case (OpGetNext name_out tags_out do_set)
  with get_next_defined [OF wf, of name_out tags_out do_set] show ?thesis by auto
next
  case (OpPlay nm)
  show ?thesis
  proof (cases "names s nm")
    case None
    with OpPlay show ?thesis by (simp add: play_absent)
  next
    case (Some e)
    from play_present [OF wf Some] OpPlay show ?thesis by auto
  qed
next
  case (OpRemove nm)
  show ?thesis
  proof (cases "names s nm")
    case None
    with OpRemove show ?thesis by (simp add: remove_absent)
  next
    case (Some e)
    from remove_present [OF wf Some] OpRemove show ?thesis by auto
  qed
next
  case OpGetList
  from get_list_result [OF wf] OpGetList show ?thesis by auto
next
  case (OpOverrideCoverUrl b)
  then show ?thesis by simp
qed

subsection \<open>Lists returned earlier\<close>

lemma list_keptI:
  assumes "\<And>c d it. (c, d) \<in> set (list_items l) \<Longrightarrow> items_heap s d = Some it \<Longrightarrow>
       (if d \<in> snd ` set (playlist s) then 2 else 1) \<le> item_ref_count it \<Longrightarrow>
       \<exists>it'. items_heap s' d = Some it' \<and>
             it'\<lparr>item_ref_count := 0\<rparr> = it\<lparr>item_ref_count := 0\<rparr> \<and>
             (if d \<in> snd ` set (playlist s') then 2 else 1) \<le> item_ref_count it'"
    and "list_holds_refs s l"
  shows "list_kept s s' l"
proof -
  have each: "\<exists>it it'. items_heap s (snd x) = Some it \<and> items_heap s' (snd x) = Some it' \<and>
             it'\<lparr>item_ref_count := 0\<rparr> = it\<lparr>item_ref_count := 0\<rparr> \<and>
             (if snd x \<in> snd ` set (playlist s') then 2 else 1) \<le> item_ref_count it'"
    if x: "x \<in> set (list_items l)" for x
  proof -
    from assms(2) x obtain it where
      it: "items_heap s (snd x) = Some it"
          "(if snd x \<in> snd ` set (playlist s) then 2 else 1) \<le> item_ref_count it"
      unfolding list_holds_refs_def by blast
    from x have "(fst x, snd x) \<in> set (list_items l)" by simp
    from assms(1) [OF this it] it(1) show ?thesis by blast
  qed
  have "list_holds_refs s' l"
    unfolding list_holds_refs_def using each by blast
  moreover have "map (\<lambda>x. map_option (\<lambda>it. it\<lparr>item_ref_count := 0\<rparr>) (items_heap s' (snd x))) (list_items l) =
     map (\<lambda>x. map_option (\<lambda>it. it\<lparr>item_ref_count := 0\<rparr>) (items_heap s (snd x))) (list_items l)"
  proof (rule map_cong [OF refl])
    fix x assume "x \<in> set (list_items l)"
    from each [OF this]
    show "map_option (\<lambda>it. it\<lparr>item_ref_count := 0\<rparr>) (items_heap s' (snd x)) =
          map_option (\<lambda>it. it\<lparr>item_ref_count := 0\<rparr>) (items_heap s (snd x))"
      by auto
  qed
  ultimately show ?thesis by (simp add: list_kept_def list_contents_def)
qed

lemma list_kept_same:
  assumes "list_holds_refs s l" "items_heap s' = items_heap s" "playlist s' = playlist s"
  shows "list_kept s s' l"
  using assms by (simp add: list_kept_def list_holds_refs_def list_contents_def)

lemma list_kept_added:
  assumes wf: "playlist_wf s" and l: "list_holds_refs s l"
  shows "list_kept s (item_added final_name fnm pth tgs cur s) l"
proof (rule list_keptI [OF _ l])
  fix c d it
  assume it: "items_heap s d = Some it"
    and rc: "(if d \<in> snd ` set (playlist s) then 2 else 1) \<le> item_ref_count it"
  from wf_heap_bound [OF wf it] have d: "d \<noteq> next_addr s" by simp
  then have "items_heap (item_added final_name fnm pth tgs cur s) d = Some it"
    using it by (simp add: item_added_def)
  moreover have "d \<in> snd ` set (playlist (item_added final_name fnm pth tgs cur s)) \<longleftrightarrow>
      d \<in> snd ` set (playlist s)"
    using d by (auto simp: item_added_playlist)
  ultimately show "\<exists>it'. items_heap (item_added final_name fnm pth tgs cur s) d = Some it' \<and>
             it'\<lparr>item_ref_count := 0\<rparr> = it\<lparr>item_ref_count := 0\<rparr> \<and>
             (if d \<in> snd ` set (playlist (item_added final_name fnm pth tgs cur s)) then 2 else 1)
               \<le> item_ref_count it'"
    using rc by simp
qed

lemma list_kept_removed:
  assumes wf: "playlist_wf s" and l: "list_holds_refs s l"
    and mem: "(e, d) \<in> set (playlist s)" and it: "items_heap s d = Some it"
  shows "list_kept s
     (s\<lparr>current := cu,
        playlist := filter (\<lambda>x. fst x \<noteq> e) (playlist s),
        names := nms,
        items_heap := (if item_ref_count it \<le> 1 then (items_heap s)(d := None)
                       else (items_heap s)(d \<mapsto> it\<lparr>item_ref_count := item_ref_count it - 1\<rparr>))\<rparr>) l"
    (is "list_kept s ?s l")
proof (rule list_keptI [OF _ l])
  fix c d' it'
  assume it': "items_heap s d' = Some it'"
    and rc: "(if d' \<in> snd ` set (playlist s) then 2 else 1) \<le> item_ref_count it'"
  note dc = wf_distinct_cells [OF wf] and di = wf_distinct_items [OF wf]
  have gone: "d \<notin> snd ` set (playlist ?s)"
  proof
    assume "d \<in> snd ` set (playlist ?s)"
    then obtain c' where "(c', d) \<in> set (playlist s)" "c' \<noteq> e" by auto
    with same_item [OF di mem, of c'] show False by simp
  qed
  have other: "d' \<in> snd ` set (playlist ?s) \<longleftrightarrow> d' \<in> snd ` set (playlist s)" if "d' \<noteq> d"
  proof
    assume "d' \<in> snd ` set (playlist ?s)"
    then show "d' \<in> snd ` set (playlist s)" by auto
  next
    assume "d' \<in> snd ` set (playlist s)"
    then obtain c' where c': "(c', d') \<in> set (playlist s)" by auto
    with same_cell [OF dc mem, of d'] that have "c' \<noteq> e" by auto
    with c' show "d' \<in> snd ` set (playlist ?s)" by force
  qed
  show "\<exists>it''. items_heap ?s d' = Some it'' \<and>
             it''\<lparr>item_ref_count := 0\<rparr> = it'\<lparr>item_ref_count := 0\<rparr> \<and>
             (if d' \<in> snd ` set (playlist ?s) then 2 else 1) \<le> item_ref_count it''"
  proof (cases "d' = d")
    case True
    with it it' have eq: "it' = it" by simp
    from True mem have "d' \<in> snd ` set (playlist s)" by force
    with rc eq have two: "2 \<le> item_ref_count it" by simp
    then have "items_heap ?s d' = Some (it\<lparr>item_ref_count := item_ref_count it - 1\<rparr>)"
      using True by simp
    moreover have "1 \<le> item_ref_count (it\<lparr>item_ref_count := item_ref_count it - 1\<rparr>)"
      using two by simp
    ultimately show ?thesis using gone True eq by simp
  next
    case False
    then have "items_heap ?s d' = Some it'" using it' by simp
    then show ?thesis using other [OF False] rc by simp
  qed
qed

lemma list_kept_more_refs:
  assumes l: "list_holds_refs s l"
    and h: "\<forall>a. h a = map_option (\<lambda>it. it\<lparr>item_ref_count := item_ref_count it + f a\<rparr>) (items_heap s a)"
  shows "list_kept s (s\<lparr>items_heap := h, next_addr := n\<rparr>) l"
proof (rule list_keptI [OF _ l])
  fix c d it
  assume "items_heap s d = Some it"
    and "(if d \<in> snd ` set (playlist s) then 2 else 1) \<le> item_ref_count it"
  then show "\<exists>it'. items_heap (s\<lparr>items_heap := h, next_addr := n\<rparr>) d = Some it' \<and>
             it'\<lparr>item_ref_count := 0\<rparr> = it\<lparr>item_ref_count := 0\<rparr> \<and>
             (if d \<in> snd ` set (playlist (s\<lparr>items_heap := h, next_addr := n\<rparr>)) then 2 else 1)
               \<le> item_ref_count it'"
    using h by simp
qed

lemma ref_next_addr:
  "melo_playlist_item_ref d s = Some s1 \<Longrightarrow> next_addr s1 = next_addr s"
  by (auto simp: melo_playlist_item_ref_def split: option.splits)

lemma copy_deep_ref_cells:
  "g_list_copy_deep_ref l s = Some (l', s') \<Longrightarrow>
   map fst l' = [next_addr s ..< next_addr s + length l]"
proof (induction l arbitrary: s l' s')
  case Nil
  then show ?case by simp
next
  case (Cons x l)
  from Cons.prems obtain s1 l1 where
    s1: "melo_playlist_item_ref (snd x) s = Some s1"
    and l1: "g_list_copy_deep_ref l (s1\<lparr>next_addr := next_addr s1 + 1\<rparr>) = Some (l1, s')"
    and l': "l' = (next_addr s1, snd x) # l1"
    by (auto split: bind_splits)
  from Cons.IH [OF l1] ref_next_addr [OF s1]
  have "map fst l1 = [next_addr s + 1 ..< next_addr s + 1 + length l]" by simp
  moreover have "[next_addr s ..< next_addr s + length (x # l)] =
      next_addr s # [next_addr s + 1 ..< next_addr s + 1 + length l]"
    using upt_conv_Cons [of "next_addr s" "next_addr s + length (x # l)"]
    by (simp del: upt_Suc)
  ultimately show ?case using l' ref_next_addr [OF s1] by (simp del: upt_Suc)
qed

lemma get_list_cells:
  assumes "melo_playlist_simple_get_list s = Some (l, s1, tr)"
  shows "map fst (list_items l) = [next_addr s ..< next_addr s + length (playlist s)]"
proof -
  from assms obtain l0 s0 where "g_list_copy_deep_ref (playlist s) s = Some (l0, s0)"
    and "list_items l = l0"
    unfolding melo_playlist_simple_get_list_def by (auto split: bind_splits)
  with copy_deep_ref_cells show ?thesis by blast
qed

lemma cells_apart_same:
  assumes "cells_apart s l" "next_addr s \<le> next_addr s'" "playlist s' = playlist s"
  shows "cells_apart s' l"
  using assms unfolding cells_apart_def by auto

lemma cells_apart_added:
  assumes "cells_apart s l"
  shows "cells_apart (item_added final_name fnm pth tgs cur s) l"
  using assms unfolding cells_apart_def item_added_def by auto

lemma cells_apart_removed:
  assumes "cells_apart s l"
  shows "cells_apart (s\<lparr>current := cu, playlist := filter P (playlist s), names := nms, items_heap := h\<rparr>) l"
  using assms unfolding cells_apart_def by auto

lemma keeps_same:
  assumes "playlist_wf s"
  shows "playlist_wf s \<and> (\<forall>l. list_holds_refs s l \<longrightarrow> list_kept s s l) \<and>
         (\<forall>l. cells_apart s l \<longrightarrow> cells_apart s l)"
  using assms by (simp add: list_kept_same)

lemma keeps_current:
  assumes "playlist_wf s" "c \<in> fst ` set (playlist s)"
  shows "playlist_wf (s\<lparr>current := Some c\<rparr>) \<and>
         (\<forall>l. list_holds_refs s l \<longrightarrow> list_kept s (s\<lparr>current := Some c\<rparr>) l) \<and>
         (\<forall>l. cells_apart s l \<longrightarrow> cells_apart (s\<lparr>current := Some c\<rparr>) l)"
  using wf_set_current [OF assms] by (simp add: list_kept_same cells_apart_same)

lemma add_keeps:
  assumes wf: "playlist_wf s"
    and ap: "melo_playlist_simple_add hc nm fnm pth tgs cur s = Some (r, s', tr)"
  shows "playlist_wf s' \<and> (\<forall>l. list_holds_refs s l \<longrightarrow> list_kept s s' l) \<and>
         (\<forall>l. cells_apart s l \<longrightarrow> cells_apart s' l)"
proof (cases "base_name nm fnm pth")
  case None
  from add_no_name [OF None, of hc tgs cur s] ap show ?thesis by simp
next
  case (Some n)
  from add_cases [OF Some, of hc tgs cur s] show ?thesis
  proof (elim disjE exE conjE)
    assume "melo_playlist_simple_add hc nm fnm pth tgs cur s = None"
    with ap show ?thesis by simp
  next
    fix final_name
    assume free: "names s final_name = None"
      and "melo_playlist_simple_add hc nm fnm pth tgs cur s =
         Some (True, item_added final_name fnm pth tgs cur s, add_actions hc final_name tgs s)"
    with ap have s': "s' = item_added final_name fnm pth tgs cur s" by simp
    have "playlist_wf s'" unfolding s' by (rule item_added_wf [OF wf free])
    moreover have "list_kept s s' l" if "list_holds_refs s l" for l
      unfolding s' by (rule list_kept_added [OF wf that])
    moreover have "cells_apart s' l" if "cells_apart s l" for l
      unfolding s' by (rule cells_apart_added [OF that])
    ultimately show ?thesis by blast
  qed
qed

lemma get_prev_keeps:
  assumes wf: "playlist_wf s"
    and ap: "melo_playlist_simple_get_prev name_out tags_out do_set s = Some (pth, n', t', s', tr)"
  shows "playlist_wf s' \<and> (\<forall>l. list_holds_refs s l \<longrightarrow> list_kept s s' l) \<and>
         (\<forall>l. cells_apart s l \<longrightarrow> cells_apart s' l)"
proof -
  from get_prev_shape [OF ap]
  consider "s' = s" | n where "n \<in> fst ` set (playlist s)" "s' = s\<lparr>current := Some n\<rparr>"
    by blast
  then show ?thesis
  proof cases
    case 1
    with keeps_same [OF wf] show ?thesis by simp
  next
    case 2
    with keeps_current [OF wf 2(1)] show ?thesis by simp
  qed
qed

lemma get_next_keeps:
  assumes wf: "playlist_wf s"
    and ap: "melo_playlist_simple_get_next name_out tags_out do_set s = Some (pth, n', t', s', tr)"
  shows "playlist_wf s' \<and> (\<forall>l. list_holds_refs s l \<longrightarrow> list_kept s s' l) \<and>
         (\<forall>l. cells_apart s l \<longrightarrow> cells_apart s' l)"
proof -
  from get_next_shape [OF ap]
  consider "s' = s" | n where "n \<in> fst ` set (playlist s)" "s' = s\<lparr>current := Some n\<rparr>"
    by blast
  then show ?thesis
  proof cases
    case 1
    with keeps_same [OF wf] show ?thesis by simp
  next
    case 2
    with keeps_current [OF wf 2(1)] show ?thesis by simp
  qed
qed

lemma play_keeps:
  assumes wf: "playlist_wf s"
    and ap: "melo_playlist_simple_play nm s = Some (r, s', tr)"
  shows "playlist_wf s' \<and> (\<forall>l. list_holds_refs s l \<longrightarrow> list_kept s s' l) \<and>
         (\<forall>l. cells_apart s l \<longrightarrow> cells_apart s' l)"
proof (cases "names s nm")
  case None
  with ap have "s' = s" by (simp add: play_absent)
  with keeps_same [OF wf] show ?thesis by simp
next
  case (Some e)
  from play_present [OF wf Some] obtain d it t where
    d: "map_of (playlist s) e = Some d"
    and p: "melo_playlist_simple_play nm s = Some (True, s\<lparr>current := Some e\<rparr>, t)"
    by blast
  from p ap have s': "s' = s\<lparr>current := Some e\<rparr>" by simp
  from d have "e \<in> fst ` set (playlist s)" by (force dest: map_of_cell_mem)
  from keeps_current [OF wf this] s' show ?thesis by simp
qed

lemma remove_keeps:
  assumes wf: "playlist_wf s"
    and ap: "melo_playlist_simple_remove nm s = Some (r, s', tr)"
  shows "playlist_wf s' \<and> (\<forall>l. list_holds_refs s l \<longrightarrow> list_kept s s' l) \<and>
         (\<forall>l. cells_apart s l \<longrightarrow> cells_apart s' l)"
proof (cases "names s nm")
  case None
  with ap have "s' = s" by (simp add: remove_absent)
  with keeps_same [OF wf] show ?thesis by simp
next
  case (Some e)
  from remove_present [OF wf Some] obtain d it t where
    d: "(e, d) \<in> set (playlist s)" "items_heap s d = Some it"
    and p: "melo_playlist_simple_remove nm s =
       Some (True,
             s\<lparr>current := (if current s = Some e then None else current s),
               playlist := filter (\<lambda>x. fst x \<noteq> e) (playlist s),
               names := (names s)(nm := None),
               items_heap := (if item_ref_count it \<le> 1 then (items_heap s)(d := None)
                              else (items_heap s)(d \<mapsto> it\<lparr>item_ref_count := item_ref_count it - 1\<rparr>))\<rparr>,
             t)"
    by blast
  from p ap have s': "s' = s\<lparr>current := (if current s = Some e then None else current s),
               playlist := filter (\<lambda>x. fst x \<noteq> e) (playlist s),
               names := (names s)(nm := None),
               items_heap := (if item_ref_count it \<le> 1 then (items_heap s)(d := None)
                              else (items_heap s)(d \<mapsto> it\<lparr>item_ref_count := item_ref_count it - 1\<rparr>))\<rparr>"
    by simp
  have "\<forall>a. a \<noteq> d \<longrightarrow>
        (if item_ref_count it \<le> 1 then (items_heap s)(d := None)
         else (items_heap s)(d \<mapsto> it\<lparr>item_ref_count := item_ref_count it - 1\<rparr>)) a = items_heap s a"
    by simp
  from item_removed_wf [OF wf Some d(1) this] have "playlist_wf s'" unfolding s' .
  moreover have "list_kept s s' l" if "list_holds_refs s l" for l
    unfolding s' by (rule list_kept_removed [OF wf that d])
  moreover have "cells_apart s' l" if "cells_apart s l" for l
    unfolding s' by (rule cells_apart_removed [OF that])
  ultimately show ?thesis by blast
qed

lemma get_list_keeps:
  assumes wf: "playlist_wf s"
    and ap: "melo_playlist_simple_get_list s = Some (l0, s', tr)"
  shows "playlist_wf s' \<and> (\<forall>l. list_holds_refs s l \<longrightarrow> list_kept s s' l) \<and>
         (\<forall>l. cells_apart s l \<longrightarrow> cells_apart s' l)"
proof -
  from get_list_result [OF wf] obtain l1 h c where
    h: "\<forall>a. h a = map_option
                 (\<lambda>it. it\<lparr>item_ref_count := item_ref_count it +
                                (if a \<in> snd ` set (playlist s) then 1 else 0)\<rparr>)
                 (items_heap s a)"
    and p: "melo_playlist_simple_get_list s =
           Some (\<lparr>list_items = l1, list_current = c\<rparr>,
                 s\<lparr>items_heap := h, next_addr := next_addr s + length (playlist s)\<rparr>,
                 [MutexLock, MutexUnlock])"
    by blast
  from p ap have s': "s' = s\<lparr>items_heap := h, next_addr := next_addr s + length (playlist s)\<rparr>"
    by simp
  have "playlist_wf s'" unfolding s' by (rule more_refs_wf [OF wf h]) simp
  moreover have "list_kept s s' l" if "list_holds_refs s l" for l
    unfolding s' by (rule list_kept_more_refs [OF that h])
  moreover have "cells_apart s' l" if "cells_apart s l" for l
    unfolding s' by (rule cells_apart_same [OF that]) simp_all
  ultimately show ?thesis by blast
qed

lemma override_keeps:
  assumes "playlist_wf s"
  shows "playlist_wf (s\<lparr>override_cover_url := b\<rparr>) \<and>
         (\<forall>l. list_holds_refs s l \<longrightarrow> list_kept s (s\<lparr>override_cover_url := b\<rparr>) l) \<and>
         (\<forall>l. cells_apart s l \<longrightarrow> cells_apart (s\<lparr>override_cover_url := b\<rparr>) l)"
proof -
  have "playlist_wf (s\<lparr>override_cover_url := b\<rparr>)"
    using assms unfolding playlist_wf_def cell_item_def by (simp cong: option.case_cong)
  then show ?thesis by (simp add: list_kept_same cells_apart_same)
qed

lemma apply_op_keeps:
  assumes wf: "playlist_wf s" and ap: "apply_op hc x s = Some s'"
  shows "playlist_wf s' \<and> (\<forall>l. list_holds_refs s l \<longrightarrow> list_kept s s' l) \<and>
         (\<forall>l. cells_apart s l \<longrightarrow> cells_apart s' l)"
proof (cases x)
  case (OpAdd nm fnm pth tgs cur)
  with ap obtain r tr where "melo_playlist_simple_add hc nm fnm pth tgs cur s = Some (r, s', tr)"
    by (auto split: option.splits)
  from add_keeps [OF wf this] show ?thesis .
next
  case (OpGetPrev name_out tags_out do_set)
  with ap obtain pth n' t' tr where
    "melo_playlist_simple_get_prev name_out tags_out do_set s = Some (pth, n', t', s', tr)"
    by (auto split: option.splits)
  from get_prev_keeps [OF wf this] show ?thesis .
next
  case (OpGetNext name_out tags_out do_set)
  with ap obtain pth n' t' tr where
    "melo_playlist_simple_get_next name_out tags_out do_set s = Some (pth, n', t', s', tr)"
    by (auto split: option.splits)
  from get_next_keeps [OF wf this] show ?thesis .
next
  case (OpPlay nm)
  with ap obtain r tr where "melo_playlist_simple_play nm s = Some (r, s', tr)"
    by (auto split: option.splits)
  from play_keeps [OF wf this] show ?thesis .
next
  case (OpRemove nm)
  with ap obtain r tr where "melo_playlist_simple_remove nm s = Some (r, s', tr)"
    by (auto split: option.splits)
  from remove_keeps [OF wf this] show ?thesis .
next
  case OpGetList
  with ap obtain l0 tr where "melo_playlist_simple_get_list s = Some (l0, s', tr)"
    by (auto split: option.splits)
  from get_list_keeps [OF wf this] show ?thesis .
next
  case (OpOverrideCoverUrl b)
  with ap have "s' = s\<lparr>override_cover_url := b\<rparr>"
    by (simp add: melo_playlist_simple_override_cover_url_def)
  with override_keeps [OF wf, of b] show ?thesis by simp
qed

lemma list_kept_trans:
  "list_kept s s' l \<Longrightarrow> list_kept s' s'' l \<Longrightarrow> list_kept s s'' l"
  by (simp add: list_kept_def)

lemma run_ops_keeps:
  assumes "playlist_wf s" "run_ops hc xs s = Some s'" "list_holds_refs s l" "cells_apart s l"
  shows "playlist_wf s' \<and> list_kept s s' l \<and> cells_apart s' l"
  using assms
proof (induction xs arbitrary: s)
  case Nil
  then show ?case by (simp add: list_kept_same)
next
  case (Cons x xs)
  from Cons.prems(2) obtain s1 where
    s1: "apply_op hc x s = Some s1" "run_ops hc xs s1 = Some s'"
    by (auto split: option.splits)
  from apply_op_keeps [OF Cons.prems(1) s1(1)] Cons.prems(3,4)
  have k: "playlist_wf s1" "list_kept s s1 l" "cells_apart s1 l" by auto
  then have "list_holds_refs s1 l" by (simp add: list_kept_def)
  from Cons.IH [OF k(1) s1(2) this k(3)] k(2) show ?case by (auto intro: list_kept_trans)
qed

lemma run_ops_wf:
  assumes "playlist_wf s" "run_ops hc xs s = Some s'"
  shows "playlist_wf s'"
  using assms
proof (induction xs arbitrary: s)
  case Nil
  then show ?case by simp
next
  case (Cons x xs)
  from Cons.prems(2) obtain s1 where
    s1: "apply_op hc x s = Some s1" "run_ops hc xs s1 = Some s'"
    by (auto split: option.splits)
  from apply_op_keeps [OF Cons.prems(1) s1(1)] have "playlist_wf s1" by simp
  from Cons.IH [OF this s1(2)] show ?case .
qed

lemma wf_invariant:
  assumes wf: "playlist_wf s"
  shows "playlist_invariant s"
proof -
  have names_of: "\<exists>k. map_option item_name (items_heap s (snd x)) = Some k \<and> names s k = Some (fst x)"
    if "x \<in> set (playlist s)" for x
  proof -
    from that have "(fst x, snd x) \<in> set (playlist s)" by simp
    from wf_cell [OF wf this] obtain it where
      "items_heap s (snd x) = Some it" "names s (item_name it) = Some (fst x)" by blast
    then show ?thesis by simp
  qed
  have "inj_on (\<lambda>x. map_option item_name (items_heap s (snd x))) (set (playlist s))"
  proof (rule inj_onI)
    fix x y
    assume x: "x \<in> set (playlist s)" and y: "y \<in> set (playlist s)"
      and eq: "map_option item_name (items_heap s (snd x)) = map_option item_name (items_heap s (snd y))"
    from names_of [OF x] obtain k where
      k: "map_option item_name (items_heap s (snd x)) = Some k" "names s k = Some (fst x)"
      by blast
    from names_of [OF y] obtain k' where
      k': "map_option item_name (items_heap s (snd y)) = Some k'" "names s k' = Some (fst y)"
      by blast
    from k k' eq have "fst x = fst y" by simp
    with x y wf_distinct_cells [OF wf] show "x = y"
      by (metis distinct_map inj_onD)
  qed
  moreover have "distinct (playlist s)" using wf_distinct_cells [OF wf] by (simp add: distinct_map)
  ultimately have "distinct (playlist_names s)"
    unfolding playlist_names_def by (simp add: distinct_map)
  moreover have "None \<notin> set (playlist_names s)"
  proof
    assume "None \<in> set (playlist_names s)"
    then obtain x where "x \<in> set (playlist s)" "map_option item_name (items_heap s (snd x)) = None"
      unfolding playlist_names_def by auto
    with names_of [of x] show False by simp
  qed
  moreover have "names_in_sequence s"
    unfolding names_in_sequence_def using wf_names [OF wf] by force
  moreover have "current_in_sequence s"
    unfolding current_in_sequence_def using wf_current_mem [OF wf] by blast
  ultimately show ?thesis by (simp add: playlist_invariant_def names_unique_def)
qed

subsection \<open>The example state\<close>

lemma playlist_ab_reached:
  "run_ops (\<lambda>t. False)
     [OpAdd (Some ''a'') None (Some ''/a'') None True,
      OpAdd (Some ''b'') None (Some ''/b'') (Some 9) False]
     (melo_playlist_simple_init (Some 7)) = Some playlist_ab"
  by (simp add: playlist_ab_def melo_playlist_simple_add_def melo_playlist_simple_init_def
        base_name_def name_loop_stop eval_nat_numeral)

lemma playlist_ab_wf: "playlist_wf playlist_ab"
  unfolding playlist_wf_def playlist_ab_def cell_item_def
  by (auto split: if_splits)

lemma playlist_bca_reached:
  "run_ops (\<lambda>t. False)
     [OpAdd (Some ''a'') None (Some ''/a'') None False,
      OpAdd (Some ''c'') None (Some ''/c'') None True,
      OpAdd (Some ''b'') None (Some ''/b'') None False]
     (melo_playlist_simple_init None) = Some playlist_bca"
  by (simp add: playlist_bca_def melo_playlist_simple_add_def melo_playlist_simple_init_def
        base_name_def name_loop_stop eval_nat_numeral)

lemma playlist_bca_wf: "playlist_wf playlist_bca"
  unfolding playlist_wf_def playlist_bca_def cell_item_def
  by (auto split: if_splits)

lemma playlist_ab_get_list:
  "melo_playlist_simple_get_list playlist_ab =
     Some (ab_snapshot, playlist_ab_listed, [MutexLock, MutexUnlock])"
  by (simp add: melo_playlist_simple_get_list_def playlist_ab_def ab_snapshot_def
        playlist_ab_listed_def melo_playlist_item_ref_def fun_eq_iff eval_nat_numeral)

lemma playlist_ab_listed_changed:
  "run_ops (\<lambda>t. False) [OpAdd (Some ''c'') None (Some ''/c'') None False, OpRemove ''a'']
     playlist_ab_listed = Some playlist_cb"
  by (simp add: playlist_ab_listed_def playlist_ab_def playlist_cb_def
        melo_playlist_simple_add_def base_name_def name_loop_stop
        melo_playlist_simple_remove_def melo_playlist_item_unref_def
        fun_eq_iff eval_nat_numeral)

section \<open>Single operations\<close>

text \<open>
  C2. With \<open>set = false\<close>, \<^verbatim>\<open>get_prev\<close> and \<^verbatim>\<open>get_next\<close> should leave \<open>current\<close> as it
  was. \<^verbatim>\<open>get_next\<close> does not: in the example state, where the current item is
  \<^verbatim>\<open>a\<close> (cell \<open>2\<close>) and \<^verbatim>\<open>b\<close> (cell \<open>4\<close>) is linked before it, a call with
  \<open>set = false\<close> returns the path of \<^verbatim>\<open>b\<close> and makes \<^verbatim>\<open>b\<close> the current item.
\<close>

theorem get_next_moves_current_without_set:
  "current playlist_ab = Some 2 \<and>
   melo_playlist_simple_get_next None None False playlist_ab =
     Some (Some ''/b'', None, None, playlist_ab\<lparr>current := Some 4\<rparr>, [MutexLock, MutexUnlock])"
  by (simp add: melo_playlist_simple_get_next_def playlist_ab_def store_name_def store_tags_def)

text \<open>
  \<^verbatim>\<open>get_prev\<close> with \<open>set = false\<close> does leave the whole state as it was;
  \<^verbatim>\<open>get_next\<close> does not read \<open>set\<close> at all.
\<close>

lemma get_prev_peek:
  "melo_playlist_simple_get_prev name_out tags_out False s = Some (pth, n, t, s', tr) \<Longrightarrow> s' = s"
  by (auto simp: melo_playlist_simple_get_prev_def split: option.splits bind_splits)

lemma get_next_ignores_set:
  "melo_playlist_simple_get_next name_out tags_out False s =
   melo_playlist_simple_get_next name_out tags_out True s"
  by (simp add: melo_playlist_simple_get_next_def)

text \<open>
  C3. No operation should call the player while the playlist's mutex is held.
  \<^verbatim>\<open>remove\<close> of the current item does: in the example state, removing \<^verbatim>\<open>a\<close> calls
  \<^verbatim>\<open>melo_player_set_state\<close> between \<^verbatim>\<open>g_mutex_lock\<close> and \<^verbatim>\<open>g_mutex_unlock\<close>.
\<close>

theorem remove_calls_player_under_lock:
  "map_option (snd \<circ> snd) (melo_playlist_simple_remove ''a'' playlist_ab) =
     Some [MutexLock, PlayerSetState (Some 7) MELO_PLAYER_STATE_NONE, MutexUnlock] \<and>
   \<not> player_calls_unlocked False
       [MutexLock, PlayerSetState (Some 7) MELO_PLAYER_STATE_NONE, MutexUnlock
          :: (nat, nat) playlist_action]"
  by (simp add: melo_playlist_simple_remove_def playlist_ab_def melo_playlist_item_unref_def)

text \<open>
  So does every \<^verbatim>\<open>remove\<close> of the current item of a well-formed playlist, while
  \<^verbatim>\<open>play\<close> calls the player only after it has released the mutex.
\<close>

lemma remove_current_calls_player_under_lock:
  assumes "playlist_wf s" "names s nm = Some e" "current s = Some e"
  shows "\<exists>s' tr. melo_playlist_simple_remove nm s = Some (True, s', tr) \<and>
           \<not> player_calls_unlocked False tr"
  using remove_present [OF assms(1,2)] assms(3) by auto

lemma play_calls_player_unlocked:
  "melo_playlist_simple_play nm s = Some (r, s', tr) \<Longrightarrow> player_calls_unlocked False tr"
  by (auto simp: melo_playlist_simple_play_def Let_def split: option.splits bind_splits)

text \<open>
  C4. In a well-formed playlist, \<^verbatim>\<open>remove\<close> of a name that is not in the hash table
  returns \<^verbatim>\<open>FALSE\<close> and changes nothing. \<^verbatim>\<open>remove\<close> of a name that is there returns
  \<^verbatim>\<open>TRUE\<close>; the cell found under the name holds the item of that name, it is taken
  out of the list (the other cells stay, in their order) and the name out of
  the hash table; if the cell was \<open>current\<close>, then \<open>current\<close> becomes \<^verbatim>\<open>NULL\<close> and
  \<^verbatim>\<open>melo_player_set_state\<close> is called for the attached player with
  \<^verbatim>\<open>MELO_PLAYER_STATE_NONE\<close>; otherwise \<open>current\<close> stays and the player is not
  called.
\<close>

theorem remove_present_or_absent:
  assumes "playlist_wf s"
  shows "(names s nm = None \<longrightarrow>
            melo_playlist_simple_remove nm s = Some (False, s, [MutexLock, MutexUnlock])) \<and>
         (\<forall>e. names s nm = Some e \<longrightarrow>
            (\<exists>d it s' tr.
               (e, d) \<in> set (playlist s) \<and> items_heap s d = Some it \<and> item_name it = nm \<and>
               melo_playlist_simple_remove nm s = Some (True, s', tr) \<and>
               playlist s' = filter (\<lambda>x. fst x \<noteq> e) (playlist s) \<and>
               names s' = (names s)(nm := None) \<and>
               (if current s = Some e
                then current s' = None \<and>
                     tr = [MutexLock, PlayerSetState (player s) MELO_PLAYER_STATE_NONE, MutexUnlock]
                else current s' = current s \<and> tr = [MutexLock, MutexUnlock])))"
proof (intro conjI allI impI)
  assume "names s nm = None"
  then show "melo_playlist_simple_remove nm s = Some (False, s, [MutexLock, MutexUnlock])"
    by (rule remove_absent)
next
  fix e assume "names s nm = Some e"
  from remove_present [OF assms this] obtain d it where
    r: "(e, d) \<in> set (playlist s)" "items_heap s d = Some it" "item_name it = nm"
       "melo_playlist_simple_remove nm s =
       Some (True,
             s\<lparr>current := (if current s = Some e then None else current s),
               playlist := filter (\<lambda>x. fst x \<noteq> e) (playlist s),
               names := (names s)(nm := None),
               items_heap := (if item_ref_count it \<le> 1 then (items_heap s)(d := None)
                              else (items_heap s)(d \<mapsto> it\<lparr>item_ref_count := item_ref_count it - 1\<rparr>))\<rparr>,
             [MutexLock] @
             (if current s = Some e then [PlayerSetState (player s) MELO_PLAYER_STATE_NONE] else []) @
             [MutexUnlock])"
    by blast
  show "\<exists>d it s' tr.
               (e, d) \<in> set (playlist s) \<and> items_heap s d = Some it \<and> item_name it = nm \<and>
               melo_playlist_simple_remove nm s = Some (True, s', tr) \<and>
               playlist s' = filter (\<lambda>x. fst x \<noteq> e) (playlist s) \<and>
               names s' = (names s)(nm := None) \<and>
               (if current s = Some e
                then current s' = None \<and>
                     tr = [MutexLock, PlayerSetState (player s) MELO_PLAYER_STATE_NONE, MutexUnlock]
                else current s' = current s \<and> tr = [MutexLock, MutexUnlock])"
    apply (rule exI [of _ d], rule exI [of _ it])
    apply (intro exI)
    apply (intro conjI)
          apply (rule r(1))
         apply (rule r(2))
        apply (rule r(3))
       apply (rule r(4))
      apply simp
     apply simp
    apply simp
    done
qed

theorem remove_present_or_absent_witness:
  "playlist_wf playlist_ab \<and> names playlist_ab ''a'' = Some 2 \<and> names playlist_ab ''c'' = None \<and>
   melo_playlist_simple_remove ''c'' playlist_ab = Some (False, playlist_ab, [MutexLock, MutexUnlock]) \<and>
   (\<exists>s'. melo_playlist_simple_remove ''a'' playlist_ab =
            Some (True, s', [MutexLock, PlayerSetState (Some 7) MELO_PLAYER_STATE_NONE, MutexUnlock]) \<and>
         playlist s' = [(4, 3)] \<and> names s' ''a'' = None \<and> names s' ''b'' = Some 4 \<and>
         current s' = None)"
proof -
  have a: "names playlist_ab ''a'' = Some 2" and c: "names playlist_ab ''c'' = None"
    and cur: "current playlist_ab = Some 2" and pl: "playlist playlist_ab = [(4, 3), (2, 1)]"
    and py: "player playlist_ab = Some 7" and b: "names playlist_ab ''b'' = Some 4"
    by (simp_all add: playlist_ab_def)
  from remove_present_or_absent [OF playlist_ab_wf, of "''c''"] c
  have 1: "melo_playlist_simple_remove ''c'' playlist_ab = Some (False, playlist_ab, [MutexLock, MutexUnlock])"
    by simp
  from remove_present_or_absent [OF playlist_ab_wf, of "''a''"] a cur pl py b
  have 2: "\<exists>s'. melo_playlist_simple_remove ''a'' playlist_ab =
            Some (True, s', [MutexLock, PlayerSetState (Some 7) MELO_PLAYER_STATE_NONE, MutexUnlock]) \<and>
         playlist s' = [(4, 3)] \<and> names s' ''a'' = None \<and> names s' ''b'' = Some 4 \<and>
         current s' = None"
    by auto
  from playlist_ab_wf a c 1 2 show ?thesis by blast
qed

text \<open>
  C5. Three calls of \<^verbatim>\<open>add\<close> on a new playlist whose base name is \<^verbatim>\<open>Track\<close> succeed
  and give the items the names \<^verbatim>\<open>Track\<close>, \<^verbatim>\<open>Track_1\<close> and \<^verbatim>\<open>Track_2\<close>, the newest
  at the head of the list. In general, for the base name \<open>n\<close> of the call:
  the names tried are \<open>n\<close>, then \<open>n\<close> with the suffix \<^verbatim>\<open>_1\<close>, \<^verbatim>\<open>_2\<close>, ..., \<^verbatim>\<open>_10\<close>, ...:
  an underscore and the decimal numeral of the number of the try, for the
  tries below \<open>100000000\<close>, whose suffix has room in the buffer;
  the call succeeds with the first of the names that is not in the hash
  table, as the name of the new item at the head of the list; whenever the
  call returns, it returns \<^verbatim>\<open>TRUE\<close> and has added the item under the first free
  name, which is one of the tries below \<open>100000000\<close>; and it does so whenever
  one of the \<open>2147483647\<close> names tried is free. (When all of them are taken
  the counter overflows and the call has no defined result, see
  \<open>add_exhausted\<close>; the theorem says nothing of that case.)
\<close>

theorem add_appends_first_free_suffix:
  "(base_name nm1 fnm1 pth1 = Some ''Track'' \<and> base_name nm2 fnm2 pth2 = Some ''Track'' \<and>
    base_name nm3 fnm3 pth3 = Some ''Track'' \<longrightarrow>
      (\<exists>s1 t1 s2 t2 s3 t3.
        melo_playlist_simple_add hc nm1 fnm1 pth1 tgs1 cur1 (melo_playlist_simple_init p) =
          Some (True, s1, t1) \<and>
        playlist_names s1 = [Some ''Track''] \<and>
        melo_playlist_simple_add hc nm2 fnm2 pth2 tgs2 cur2 s1 = Some (True, s2, t2) \<and>
        playlist_names s2 = [Some ''Track_1'', Some ''Track''] \<and>
        melo_playlist_simple_add hc nm3 fnm3 pth3 tgs3 cur3 s2 = Some (True, s3, t3) \<and>
        playlist_names s3 = [Some ''Track_2'', Some ''Track_1'', Some ''Track''])) \<and>
   (candidate n 0 = n \<and> candidate n 1 = n @ ''_1'' \<and> candidate n 2 = n @ ''_2'' \<and>
    candidate n 10 = n @ ''_10'' \<and> candidate n 42 = n @ ''_42'' \<and>
    candidate n 99999999 = n @ ''_99999999'' \<and>
    (\<forall>k. 1 \<le> k \<and> k < 100000000 \<longrightarrow>
       (\<exists>ds. candidate n k = n @ ''_'' @ ds \<and> decimal_numeral ds (nat k)))) \<and>
   (base_name nm fnm pth = Some n \<longrightarrow>
      (\<forall>k. 0 \<le> k \<and> k < 2147483647 \<and> names s (candidate n k) = None \<and>
           (\<forall>m. 0 \<le> m \<and> m < k \<longrightarrow> names s (candidate n m) \<noteq> None) \<longrightarrow>
         melo_playlist_simple_add hc nm fnm pth tgs cur s =
           Some (True, item_added (candidate n k) fnm pth tgs cur s,
                 add_actions hc (candidate n k) tgs s) \<and>
         playlist (item_added (candidate n k) fnm pth tgs cur s) =
           (next_addr s + 1, next_addr s) # playlist s \<and>
         map_option item_name (cell_item (item_added (candidate n k) fnm pth tgs cur s) (next_addr s + 1)) =
           Some (candidate n k)) \<and>
      (\<forall>r s' tr. melo_playlist_simple_add hc nm fnm pth tgs cur s = Some (r, s', tr) \<longrightarrow>
         r \<and> (\<exists>k. 0 \<le> k \<and> k < 100000000 \<and> names s (candidate n k) = None \<and>
                  (\<forall>m. 0 \<le> m \<and> m < k \<longrightarrow> names s (candidate n m) \<noteq> None) \<and>
                  s' = item_added (candidate n k) fnm pth tgs cur s)) \<and>
      ((\<exists>k. 0 \<le> k \<and> k < 2147483647 \<and> names s (candidate n k) = None) \<longrightarrow>
         (\<exists>s' tr. melo_playlist_simple_add hc nm fnm pth tgs cur s = Some (True, s', tr))))"
proof (intro conjI impI)
  assume "base_name nm1 fnm1 pth1 = Some ''Track'' \<and> base_name nm2 fnm2 pth2 = Some ''Track'' \<and>
    base_name nm3 fnm3 pth3 = Some ''Track''"
  then have b1: "base_name nm1 fnm1 pth1 = Some ''Track''"
    and b2: "base_name nm2 fnm2 pth2 = Some ''Track''"
    and b3: "base_name nm3 fnm3 pth3 = Some ''Track''"
    by simp_all
  show "\<exists>s1 t1 s2 t2 s3 t3.
        melo_playlist_simple_add hc nm1 fnm1 pth1 tgs1 cur1 (melo_playlist_simple_init p) =
          Some (True, s1, t1) \<and>
        playlist_names s1 = [Some ''Track''] \<and>
        melo_playlist_simple_add hc nm2 fnm2 pth2 tgs2 cur2 s1 = Some (True, s2, t2) \<and>
        playlist_names s2 = [Some ''Track_1'', Some ''Track''] \<and>
        melo_playlist_simple_add hc nm3 fnm3 pth3 tgs3 cur3 s2 = Some (True, s3, t3) \<and>
        playlist_names s3 = [Some ''Track_2'', Some ''Track_1'', Some ''Track'']"
    by (rule three_tracks [OF b1 b2 b3])
next
  show "candidate n 0 = n" by (rule candidate_zero)
next
  show "candidate n 1 = n @ ''_1''" by (rule candidate_1)
next
  show "candidate n 2 = n @ ''_2''" by (rule candidate_2)
next
  show "candidate n 10 = n @ ''_10''" by (rule candidate_10)
next
  show "candidate n 42 = n @ ''_42''" by (rule candidate_42)
next
  show "candidate n 99999999 = n @ ''_99999999''" by (rule candidate_99999999)
next
  show "\<forall>k. 1 \<le> k \<and> k < 100000000 \<longrightarrow>
       (\<exists>ds. candidate n k = n @ ''_'' @ ds \<and> decimal_numeral ds (nat k))"
    using candidate_decimal by blast
next
  assume b: "base_name nm fnm pth = Some n"
  show "\<forall>k. 0 \<le> k \<and> k < 2147483647 \<and> names s (candidate n k) = None \<and>
           (\<forall>m. 0 \<le> m \<and> m < k \<longrightarrow> names s (candidate n m) \<noteq> None) \<longrightarrow>
         melo_playlist_simple_add hc nm fnm pth tgs cur s =
           Some (True, item_added (candidate n k) fnm pth tgs cur s,
                 add_actions hc (candidate n k) tgs s) \<and>
         playlist (item_added (candidate n k) fnm pth tgs cur s) =
           (next_addr s + 1, next_addr s) # playlist s \<and>
         map_option item_name (cell_item (item_added (candidate n k) fnm pth tgs cur s) (next_addr s + 1)) =
           Some (candidate n k)"
  proof (intro allI impI conjI)
    fix k
    assume k: "0 \<le> k \<and> k < 2147483647 \<and> names s (candidate n k) = None \<and>
           (\<forall>m. 0 \<le> m \<and> m < k \<longrightarrow> names s (candidate n m) \<noteq> None)"
    then show "melo_playlist_simple_add hc nm fnm pth tgs cur s =
           Some (True, item_added (candidate n k) fnm pth tgs cur s,
                 add_actions hc (candidate n k) tgs s)"
      by (intro add_first_free [OF b]) simp_all
    show "playlist (item_added (candidate n k) fnm pth tgs cur s) =
           (next_addr s + 1, next_addr s) # playlist s"
      by (rule item_added_playlist)
    show "map_option item_name (cell_item (item_added (candidate n k) fnm pth tgs cur s) (next_addr s + 1)) =
           Some (candidate n k)"
      by (simp only: item_added_cell_item) simp
  qed
next
  assume b: "base_name nm fnm pth = Some n"
  show "\<forall>r s' tr. melo_playlist_simple_add hc nm fnm pth tgs cur s = Some (r, s', tr) \<longrightarrow>
         r \<and> (\<exists>k. 0 \<le> k \<and> k < 100000000 \<and> names s (candidate n k) = None \<and>
                  (\<forall>m. 0 \<le> m \<and> m < k \<longrightarrow> names s (candidate n m) \<noteq> None) \<and>
                  s' = item_added (candidate n k) fnm pth tgs cur s)"
  proof (rule allI, rule allI, rule allI, rule impI)
    fix r s' tr
    assume "melo_playlist_simple_add hc nm fnm pth tgs cur s = Some (r, s', tr)"
    from add_returns [OF b this] show "r \<and> (\<exists>k. 0 \<le> k \<and> k < 100000000 \<and>
        names s (candidate n k) = None \<and>
        (\<forall>m. 0 \<le> m \<and> m < k \<longrightarrow> names s (candidate n m) \<noteq> None) \<and>
        s' = item_added (candidate n k) fnm pth tgs cur s)"
      by blast
  qed
next
  assume b: "base_name nm fnm pth = Some n"
    and "\<exists>k. 0 \<le> k \<and> k < 2147483647 \<and> names s (candidate n k) = None"
  then have "\<not> (\<forall>m. 0 \<le> m \<and> m < 2147483647 \<longrightarrow> names s (candidate n m) \<noteq> None)" by blast
  from first_free_candidate [OF this] obtain k where
    k: "0 \<le> k" "k < 2147483647" "names s (candidate n k) = None"
       "\<forall>m. 0 \<le> m \<and> m < k \<longrightarrow> names s (candidate n m) \<noteq> None"
    by blast
  from add_first_free [OF b k, of hc tgs cur]
  show "\<exists>s' tr. melo_playlist_simple_add hc nm fnm pth tgs cur s = Some (True, s', tr)"
    by blast
qed

text \<open>
  The three calls with the base name taken from the name, the full name and
  the path; the suffix of the twelfth try; and \<^verbatim>\<open>add\<close> of \<^verbatim>\<open>a\<close> to the example
  state, where \<^verbatim>\<open>a\<close> is taken and \<^verbatim>\<open>a_1\<close> is free.
\<close>

theorem add_appends_first_free_suffix_witness:
  "(\<exists>s1 t1 s2 t2 s3 t3.
      melo_playlist_simple_add (\<lambda>t. False) (Some ''Track'') None (Some ''/1'') None False
        (melo_playlist_simple_init None :: (nat, nat) playlist_state) = Some (True, s1, t1) \<and>
      playlist_names s1 = [Some ''Track''] \<and>
      melo_playlist_simple_add (\<lambda>t. False) None (Some ''Track'') (Some ''/2'') None False s1 =
        Some (True, s2, t2) \<and>
      playlist_names s2 = [Some ''Track_1'', Some ''Track''] \<and>
      melo_playlist_simple_add (\<lambda>t. False) None None (Some ''Track'') None False s2 =
        Some (True, s3, t3) \<and>
      playlist_names s3 = [Some ''Track_2'', Some ''Track_1'', Some ''Track'']) \<and>
   (\<exists>ds. candidate ''Track'' 12 = ''Track_'' @ ds \<and> decimal_numeral ds 12) \<and>
   melo_playlist_simple_add (\<lambda>t. False) (Some ''a'') None (Some ''/x'') None False playlist_ab =
     Some (True, item_added ''a_1'' None (Some ''/x'') None False playlist_ab,
           [MutexLock, MutexUnlock]) \<and>
   (\<exists>k. names playlist_ab (candidate ''a'' k) = None \<and>
        item_added ''a_1'' None (Some ''/x'') None False playlist_ab =
        item_added (candidate ''a'' k) None (Some ''/x'') None False playlist_ab) \<and>
   (\<exists>s' tr. melo_playlist_simple_add (\<lambda>t. False) (Some ''a'') None (Some ''/x'') None False
       playlist_ab = Some (True, s', tr))"
proof -
  let ?hc = "\<lambda>t :: nat option. False"
  have 1: "\<exists>s1 t1 s2 t2 s3 t3.
      melo_playlist_simple_add ?hc (Some ''Track'') None (Some ''/1'') None False
        (melo_playlist_simple_init None :: (nat, nat) playlist_state) = Some (True, s1, t1) \<and>
      playlist_names s1 = [Some ''Track''] \<and>
      melo_playlist_simple_add ?hc None (Some ''Track'') (Some ''/2'') None False s1 =
        Some (True, s2, t2) \<and>
      playlist_names s2 = [Some ''Track_1'', Some ''Track''] \<and>
      melo_playlist_simple_add ?hc None None (Some ''Track'') None False s2 =
        Some (True, s3, t3) \<and>
      playlist_names s3 = [Some ''Track_2'', Some ''Track_1'', Some ''Track'']"
    using add_appends_first_free_suffix
      [where ?nm1.0 = "Some ''Track''" and ?fnm1.0 = None and ?pth1.0 = "Some ''/1''"
         and ?nm2.0 = None and ?fnm2.0 = "Some ''Track''" and ?pth2.0 = "Some ''/2''"
         and ?nm3.0 = None and ?fnm3.0 = None and ?pth3.0 = "Some ''Track''"
         and hc = ?hc and ?tgs1.0 = None and ?tgs2.0 = None and ?tgs3.0 = None
         and ?cur1.0 = False and ?cur2.0 = False and ?cur3.0 = False
         and p = "None :: nat option", THEN conjunct1]
    by (simp add: base_name_def)
  note d = add_appends_first_free_suffix
      [where n = "''Track''", THEN conjunct2, THEN conjunct1,
       THEN conjunct2, THEN conjunct2, THEN conjunct2, THEN conjunct2, THEN conjunct2,
       THEN conjunct2, THEN spec, of 12]
  have 2: "\<exists>ds. candidate ''Track'' 12 = ''Track_'' @ ds \<and> decimal_numeral ds 12"
    using d by simp
  have b: "base_name (Some ''a'') None (Some ''/x'') = Some ''a''"
    by (simp add: base_name_def)
  have free: "names playlist_ab (candidate ''a'' 1) = None"
    by (simp add: candidate_1 playlist_ab_def)
  have below: "\<forall>m. 0 \<le> m \<and> m < 1 \<longrightarrow> names playlist_ab (candidate ''a'' m) \<noteq> None"
  proof (intro allI impI)
    fix m :: int assume "0 \<le> m \<and> m < 1"
    then have "m = 0" by linarith
    then show "names playlist_ab (candidate ''a'' m) \<noteq> None"
      by (simp add: candidate_zero playlist_ab_def)
  qed
  have cond: "0 \<le> (1 :: int) \<and> (1 :: int) < 2147483647 \<and>
      names playlist_ab (candidate ''a'' 1) = None \<and>
      (\<forall>m. 0 \<le> m \<and> m < 1 \<longrightarrow> names playlist_ab (candidate ''a'' m) \<noteq> None)"
    using free below by simp
  note g = add_appends_first_free_suffix
      [where nm = "Some ''a''" and fnm = None and pth = "Some ''/x''" and n = "''a''"
         and s = playlist_ab and hc = ?hc and tgs = None and cur = False,
       THEN conjunct2, THEN conjunct2, THEN mp, OF b]
  note first = g [THEN conjunct1, THEN spec, THEN mp, OF cond, THEN conjunct1]
  have ov: "\<not> override_cover_url playlist_ab" by (simp add: playlist_ab_def)
  have 3: "melo_playlist_simple_add ?hc (Some ''a'') None (Some ''/x'') None False playlist_ab =
     Some (True, item_added ''a_1'' None (Some ''/x'') None False playlist_ab,
           [MutexLock, MutexUnlock])"
    using first ov by (simp add: candidate_1 add_actions_def)
  note returns = g [THEN conjunct2, THEN conjunct1, THEN spec, THEN spec, THEN spec, THEN mp, OF 3]
  have 4: "\<exists>k. names playlist_ab (candidate ''a'' k) = None \<and>
        item_added ''a_1'' None (Some ''/x'') None False playlist_ab =
        item_added (candidate ''a'' k) None (Some ''/x'') None False playlist_ab"
    using returns by blast
  have some: "\<exists>k. 0 \<le> k \<and> k < 2147483647 \<and> names playlist_ab (candidate ''a'' k) = None"
    using free by (intro exI [of _ 1]) simp
  note 5 = g [THEN conjunct2, THEN conjunct2, THEN mp, OF some]
  from 1 2 3 4 5 show ?thesis by blast
qed

text \<open>
  C6. In a well-formed playlist, \<^verbatim>\<open>play\<close> of a name that is not in the hash table
  returns \<^verbatim>\<open>FALSE\<close> and changes nothing, \<open>current\<close> included, and does not call the
  player. \<^verbatim>\<open>play\<close> of a name that is there returns \<^verbatim>\<open>TRUE\<close> and changes just
  \<open>current\<close>, to the cell found under the name, which holds the item of that
  name.
\<close>

theorem play_present_or_absent:
  assumes "playlist_wf s"
  shows "(names s nm = None \<longrightarrow>
            melo_playlist_simple_play nm s = Some (False, s, [MutexLock, MutexUnlock])) \<and>
         (\<forall>e. names s nm = Some e \<longrightarrow>
            (\<exists>it tr.
               melo_playlist_simple_play nm s = Some (True, s\<lparr>current := Some e\<rparr>, tr) \<and>
               cell_item (s\<lparr>current := Some e\<rparr>) e = Some it \<and> item_name it = nm))"
proof (intro conjI allI impI)
  assume "names s nm = None"
  then show "melo_playlist_simple_play nm s = Some (False, s, [MutexLock, MutexUnlock])"
    by (rule play_absent)
next
  fix e assume "names s nm = Some e"
  from play_present [OF assms this] obtain d it where
    p: "map_of (playlist s) e = Some d" "items_heap s d = Some it" "item_name it = nm"
       "melo_playlist_simple_play nm s =
       Some (True, s\<lparr>current := Some e\<rparr>,
             [MutexLock, MutexUnlock] @
             (case player s of None \<Rightarrow> []
              | Some p \<Rightarrow> [PlayerPlay p (item_path it) (item_name it) (item_tags it) False]))"
    by blast
  have "cell_item (s\<lparr>current := Some e\<rparr>) e = Some it"
    using p(1,2) by (simp add: cell_item_def)
  with p(3,4) show "\<exists>it tr.
               melo_playlist_simple_play nm s = Some (True, s\<lparr>current := Some e\<rparr>, tr) \<and>
               cell_item (s\<lparr>current := Some e\<rparr>) e = Some it \<and> item_name it = nm"
    by blast
qed

theorem play_present_or_absent_witness:
  "playlist_wf playlist_ab \<and> names playlist_ab ''b'' = Some 4 \<and> names playlist_ab ''c'' = None \<and>
   current playlist_ab = Some 2 \<and>
   melo_playlist_simple_play ''c'' playlist_ab = Some (False, playlist_ab, [MutexLock, MutexUnlock]) \<and>
   (\<exists>tr. melo_playlist_simple_play ''b'' playlist_ab = Some (True, playlist_ab\<lparr>current := Some 4\<rparr>, tr))"
proof -
  have b: "names playlist_ab ''b'' = Some 4" and c: "names playlist_ab ''c'' = None"
    and cur: "current playlist_ab = Some 2"
    by (simp_all add: playlist_ab_def)
  from play_present_or_absent [OF playlist_ab_wf, of "''c''"] c
  have 1: "melo_playlist_simple_play ''c'' playlist_ab = Some (False, playlist_ab, [MutexLock, MutexUnlock])"
    by simp
  from play_present_or_absent [OF playlist_ab_wf, of "''b''"] b
  have 2: "\<exists>tr. melo_playlist_simple_play ''b'' playlist_ab = Some (True, playlist_ab\<lparr>current := Some 4\<rparr>, tr)"
    by auto
  from playlist_ab_wf b c cur 1 2 show ?thesis by blast
qed

text \<open>
  C9. Let the current cell stand in a well-formed playlist between the cells
  \<open>xs\<close> towards the head and the cells \<open>ys\<close> towards the tail. \<^verbatim>\<open>get_prev\<close>
  resolves the first cell of \<open>ys\<close>, the one linked after the current cell: it
  returns that item's path, name and tags, and nothing if \<open>ys\<close> is empty.
  \<^verbatim>\<open>get_next\<close> resolves the last cell of \<open>xs\<close>, the one linked before the current
  cell, and nothing if \<open>xs\<close> is empty. A successful \<^verbatim>\<open>add\<close> puts the new cell at
  the head of the list: the cells of \<open>ys\<close> are older than the current one, the
  cells of \<open>xs\<close> were added after it.
\<close>

theorem prev_steps_to_tail_next_steps_to_head:
  assumes "playlist_wf s" "current s = Some c" "playlist s = xs @ (c, d) # ys"
  shows "(ys = [] \<longrightarrow>
            melo_playlist_simple_get_prev name_out tags_out do_set s =
              Some (None, name_out, tags_out, s, [MutexLock, MutexUnlock])) \<and>
         (\<forall>n dn ys'. ys = (n, dn) # ys' \<longrightarrow>
            (\<exists>it. items_heap s dn = Some it \<and>
               melo_playlist_simple_get_prev name_out tags_out do_set s =
                 Some (item_path it, store_name name_out it, store_tags tags_out it,
                       (if do_set then s\<lparr>current := Some n\<rparr> else s),
                       [MutexLock, MutexUnlock]))) \<and>
         (xs = [] \<longrightarrow>
            melo_playlist_simple_get_next name_out tags_out do_set s =
              Some (None, name_out, tags_out, s, [MutexLock, MutexUnlock])) \<and>
         (\<forall>n dn xs'. xs = xs' @ [(n, dn)] \<longrightarrow>
            (\<exists>it. items_heap s dn = Some it \<and>
               melo_playlist_simple_get_next name_out tags_out do_set s =
                 Some (item_path it, store_name name_out it, store_tags tags_out it,
                       s\<lparr>current := Some n\<rparr>,
                       [MutexLock, MutexUnlock]))) \<and>
         (\<forall>hc nm fnm pth tgs cur s' tr.
            melo_playlist_simple_add hc nm fnm pth tgs cur s = Some (True, s', tr) \<longrightarrow>
            playlist s' = (next_addr s + 1, next_addr s) # playlist s)"
  using get_prev_at [OF assms, of name_out tags_out do_set]
        get_next_at [OF assms, of name_out tags_out do_set]
        add_prepends [of _ _ _ _ _ _ s]
  by blast

text \<open>
  The example \<^verbatim>\<open>b, c, a\<close> from head to tail, \<^verbatim>\<open>c\<close> current: \<^verbatim>\<open>get_prev\<close> gives \<^verbatim>\<open>a\<close>,
  which was added first, and \<^verbatim>\<open>get_next\<close> gives \<^verbatim>\<open>b\<close>, which was added last.
\<close>

theorem prev_steps_to_tail_next_steps_to_head_witness:
  "playlist_wf playlist_bca \<and> current playlist_bca = Some 4 \<and>
   playlist playlist_bca = [(6, 5)] @ (4, 3) # [(2, 1)] \<and>
   melo_playlist_simple_get_prev (Some None) None False playlist_bca =
     Some (Some ''/a'', Some (Some ''a''), None, playlist_bca, [MutexLock, MutexUnlock]) \<and>
   melo_playlist_simple_get_next (Some None) None True playlist_bca =
     Some (Some ''/b'', Some (Some ''b''), None, playlist_bca\<lparr>current := Some 6\<rparr>,
           [MutexLock, MutexUnlock])"
proof -
  have cur: "current playlist_bca = Some 4"
    and pl: "playlist playlist_bca = [(6, 5)] @ (4, 3) # [(2, 1)]"
    and a: "items_heap playlist_bca 1 = Some \<lparr>item_name = ''a'', item_full_name = None,
               item_path = Some ''/a'', item_tags = None, item_can_play = True,
               item_can_remove = True, item_ref_count = 1\<rparr>"
    and b: "items_heap playlist_bca 5 = Some \<lparr>item_name = ''b'', item_full_name = None,
               item_path = Some ''/b'', item_tags = None, item_can_play = True,
               item_can_remove = True, item_ref_count = 1\<rparr>"
    by (simp_all add: playlist_bca_def)
  from prev_steps_to_tail_next_steps_to_head [OF playlist_bca_wf cur pl, of "Some None" None False] a
  have 1: "melo_playlist_simple_get_prev (Some None) None False playlist_bca =
     Some (Some ''/a'', Some (Some ''a''), None, playlist_bca, [MutexLock, MutexUnlock])"
    by (simp add: store_name_def store_tags_def)
  from prev_steps_to_tail_next_steps_to_head [OF playlist_bca_wf cur pl, of "Some None" None True] b
  have 2: "melo_playlist_simple_get_next (Some None) None True playlist_bca =
     Some (Some ''/b'', Some (Some ''b''), None, playlist_bca\<lparr>current := Some 6\<rparr>,
           [MutexLock, MutexUnlock])"
    by (simp add: store_name_def store_tags_def)
  from playlist_bca_wf cur pl 1 2 show ?thesis by blast
qed

text \<open>
  C10. In a well-formed playlist \<^verbatim>\<open>get_cover\<close> returns; it returns \<^verbatim>\<open>FALSE\<close> exactly
  when the name is not in the hash table. When the name is there and the item
  has no tags, it returns \<^verbatim>\<open>TRUE\<close> and the variables for the data and the type
  keep the values they had before the call.
\<close>

theorem get_cover_fails_only_when_absent:
  assumes "playlist_wf s"
  shows "\<exists>r data' type'.
           melo_playlist_simple_get_cover gc nm data type s =
             Some (r, data', type', [MutexLock, MutexUnlock]) \<and>
           ((\<not> r) = (names s nm = None)) \<and>
           (\<forall>e it. names s nm = Some e \<and> cell_item s e = Some it \<and> item_tags it = None \<longrightarrow>
              r \<and> data' = data \<and> type' = type)"
proof (cases "names s nm")
  case None
  have "melo_playlist_simple_get_cover gc nm data type s =
          Some (False, data, type, [MutexLock, MutexUnlock]) \<and>
        ((\<not> False) = (names s nm = None)) \<and>
        (\<forall>e it. names s nm = Some e \<and> cell_item s e = Some it \<and> item_tags it = None \<longrightarrow>
              False \<and> data = data \<and> type = type)"
    using get_cover_absent [OF None, of gc data type] None by simp
  then show ?thesis by blast
next
  case (Some e)
  from get_cover_present [OF assms Some, of gc data type] obtain d it where
    g: "map_of (playlist s) e = Some d" "items_heap s d = Some it"
       "melo_playlist_simple_get_cover gc nm data type s =
       Some (True,
             (case item_tags it of None \<Rightarrow> data | Some t \<Rightarrow> fst (gc t type)),
             (case item_tags it of None \<Rightarrow> type | Some t \<Rightarrow> snd (gc t type)),
             [MutexLock, MutexUnlock])"
    by blast
  have "cell_item s e = Some it" using g(1,2) by (simp add: cell_item_def)
  with Some g(3) show ?thesis by auto
qed

theorem get_cover_fails_only_when_absent_witness:
  "playlist_wf playlist_ab \<and> names playlist_ab ''a'' = Some 2 \<and> names playlist_ab ''c'' = None \<and>
   melo_playlist_simple_get_cover (\<lambda>t ty. (Some t, Some ''image/png'')) ''a'' (Some 0) (Some ''x'') playlist_ab =
     Some (True, Some 0, Some ''x'', [MutexLock, MutexUnlock]) \<and>
   (\<exists>data' type'.
     melo_playlist_simple_get_cover (\<lambda>t ty. (Some t, Some ''image/png'')) ''c'' (Some 0) (Some ''x'') playlist_ab =
       Some (False, data', type', [MutexLock, MutexUnlock]))"
proof -
  let ?gc = "\<lambda>(t :: nat) (ty :: string option). (Some t, Some ''image/png'')"
  have a: "names playlist_ab ''a'' = Some 2" and c: "names playlist_ab ''c'' = None"
    by (simp_all add: playlist_ab_def)
  have it: "cell_item playlist_ab 2 = Some \<lparr>item_name = ''a'', item_full_name = None,
               item_path = Some ''/a'', item_tags = None, item_can_play = True,
               item_can_remove = True, item_ref_count = 1\<rparr>"
    by (simp add: playlist_ab_def cell_item_def)
  from get_cover_fails_only_when_absent [OF playlist_ab_wf, of ?gc "''a''" "Some 0" "Some ''x''"] a it
  have 1: "melo_playlist_simple_get_cover ?gc ''a'' (Some 0) (Some ''x'') playlist_ab =
     Some (True, Some 0, Some ''x'', [MutexLock, MutexUnlock])"
    by auto
  from get_cover_fails_only_when_absent [OF playlist_ab_wf, of ?gc "''c''" "Some 0" "Some ''x''"] c
  have 2: "\<exists>data' type'. melo_playlist_simple_get_cover ?gc ''c'' (Some 0) (Some ''x'') playlist_ab =
     Some (False, data', type', [MutexLock, MutexUnlock])"
    by auto
  from playlist_ab_wf a c 1 2 show ?thesis by blast
qed

section \<open>Sequences of operations\<close>

text \<open>
  C7. In every state reached from a new playlist by operations (\<^verbatim>\<open>add\<close>,
  \<^verbatim>\<open>get_prev\<close>, \<^verbatim>\<open>get_next\<close>, \<^verbatim>\<open>play\<close>, \<^verbatim>\<open>remove\<close>, also \<^verbatim>\<open>get_list\<close> and the switch for
  the cover URL) the invariant holds: the names of the items of the list are
  distinct, every entry of the hash table is a cell of the list, and \<open>current\<close>
  is \<^verbatim>\<open>NULL\<close> or a cell of the list. Every further operation is defined there
  (\<^verbatim>\<open>add\<close> if it is given a name, a full name or a path, and one of the names it
  tries is free) and leads to a state where the invariant holds again.
\<close>

theorem operations_preserve_invariant:
  assumes "run_ops hc xs (melo_playlist_simple_init p) = Some s"
  shows "playlist_invariant s \<and>
         (op_defined x s \<longrightarrow> apply_op hc x s \<noteq> None) \<and>
         (\<forall>s'. apply_op hc x s = Some s' \<longrightarrow> playlist_invariant s')"
proof -
  have wf: "playlist_wf s" by (rule run_ops_wf [OF playlist_wf_init assms])
  have "playlist_invariant s'" if "apply_op hc x s = Some s'" for s'
    using apply_op_keeps [OF wf that] by (simp add: wf_invariant)
  with wf_invariant [OF wf] apply_op_defined [OF wf, of x hc] show ?thesis by blast
qed

text \<open>
  The example state is reached by two calls of \<^verbatim>\<open>add\<close>; \<^verbatim>\<open>remove\<close> of \<^verbatim>\<open>a\<close> is defined
  there, and so is \<^verbatim>\<open>add\<close> of another \<^verbatim>\<open>a\<close>, for which the name \<^verbatim>\<open>a_1\<close> is free.
\<close>

theorem operations_preserve_invariant_witness:
  "run_ops (\<lambda>t. False)
     [OpAdd (Some ''a'') None (Some ''/a'') None True,
      OpAdd (Some ''b'') None (Some ''/b'') (Some 9) False]
     (melo_playlist_simple_init (Some 7)) = Some playlist_ab \<and>
   playlist_invariant playlist_ab \<and>
   (\<exists>s'. apply_op (\<lambda>t. False) (OpRemove ''a'') playlist_ab = Some s' \<and> playlist_invariant s') \<and>
   op_defined (OpAdd (Some ''a'') None (Some ''/x'') None False) playlist_ab \<and>
   (\<exists>s'. apply_op (\<lambda>t. False) (OpAdd (Some ''a'') None (Some ''/x'') None False) playlist_ab =
           Some s' \<and> playlist_invariant s')"
proof -
  have d: "op_defined (OpAdd (Some ''a'') None (Some ''/x'') None False) playlist_ab"
  proof -
    have "base_name (Some ''a'') None (Some ''/x'') = Some ''a'' \<and> 0 \<le> (1 :: int) \<and>
          (1 :: int) < 2147483647 \<and> names playlist_ab (candidate ''a'' 1) = None"
      by (simp add: base_name_def candidate_1 playlist_ab_def)
    then show ?thesis unfolding op_defined.simps by blast
  qed
  from operations_preserve_invariant [OF playlist_ab_reached, of "OpRemove ''a''"]
  have 1: "playlist_invariant playlist_ab \<and>
     (\<exists>s'. apply_op (\<lambda>t. False) (OpRemove ''a'') playlist_ab = Some s' \<and> playlist_invariant s')"
    by auto
  from operations_preserve_invariant
    [OF playlist_ab_reached, of "OpAdd (Some ''a'') None (Some ''/x'') None False"] d
  have 2: "\<exists>s'. apply_op (\<lambda>t. False) (OpAdd (Some ''a'') None (Some ''/x'') None False) playlist_ab =
           Some s' \<and> playlist_invariant s'"
    by blast
  from playlist_ab_reached 1 d 2 show ?thesis by blast
qed

text \<open>
  C8. Let \<^verbatim>\<open>get_list\<close> return a list in a well-formed playlist. The list holds
  the items of the playlist at that moment, in the order of the playlist, and
  the name of the current item. After any sequence of later operations the
  list reads exactly as it did when it was returned: as many cells, pointing
  to the same items with the same fields, all of them still live; and no cell
  of the list is a cell of the playlist.
\<close>

theorem get_list_is_independent_snapshot:
  assumes "playlist_wf s" "melo_playlist_simple_get_list s = Some (l, s1, tr)"
    "run_ops hc xs s1 = Some s2"
  shows "list_contents s1 l =
           (map (\<lambda>x. map_option (\<lambda>it. it\<lparr>item_ref_count := 0\<rparr>) (items_heap s (snd x))) (playlist s),
            (case current s of None \<Rightarrow> None | Some c \<Rightarrow> map_option item_name (cell_item s c))) \<and>
         list_contents s2 l = list_contents s1 l \<and>
         length (fst (list_contents s2 l)) = length (playlist s) \<and>
         None \<notin> set (fst (list_contents s2 l)) \<and>
         fst ` set (list_items l) \<inter> fst ` set (playlist s2) = {}"
proof -
  from get_list_result [OF assms(1)] assms(2) obtain l1 h where
    l: "l = \<lparr>list_items = l1,
             list_current = (case current s of None \<Rightarrow> None
                             | Some c \<Rightarrow> map_option item_name (cell_item s c))\<rparr>"
    and s1: "s1 = s\<lparr>items_heap := h, next_addr := next_addr s + length (playlist s)\<rparr>"
    and items: "map snd l1 = map snd (playlist s)"
    and h: "\<forall>a. h a = map_option
                 (\<lambda>it. it\<lparr>item_ref_count := item_ref_count it +
                                (if a \<in> snd ` set (playlist s) then 1 else 0)\<rparr>)
                 (items_heap s a)"
    by auto
  have wf1: "playlist_wf s1" using get_list_keeps [OF assms(1,2)] by simp
  have "map (\<lambda>x. map_option (\<lambda>it. it\<lparr>item_ref_count := 0\<rparr>) (h (snd x))) l1 =
        map (\<lambda>d. map_option (\<lambda>it. it\<lparr>item_ref_count := 0\<rparr>) (h d)) (map snd l1)"
    by (simp add: comp_def)
  also have "\<dots> = map (\<lambda>d. map_option (\<lambda>it. it\<lparr>item_ref_count := 0\<rparr>) (items_heap s d)) (map snd (playlist s))"
    unfolding items by (rule map_cong [OF refl]) (simp add: h option.map_comp comp_def)
  also have "\<dots> = map (\<lambda>x. map_option (\<lambda>it. it\<lparr>item_ref_count := 0\<rparr>) (items_heap s (snd x))) (playlist s)"
    by (simp add: comp_def)
  finally have c1: "list_contents s1 l =
           (map (\<lambda>x. map_option (\<lambda>it. it\<lparr>item_ref_count := 0\<rparr>) (items_heap s (snd x))) (playlist s),
            (case current s of None \<Rightarrow> None | Some c \<Rightarrow> map_option item_name (cell_item s c)))"
    by (simp add: list_contents_def l s1)
  have refs: "list_holds_refs s1 l"
    unfolding list_holds_refs_def
  proof
    fix x assume "x \<in> set (list_items l)"
    then have "snd x \<in> set (map snd l1)" by (simp add: l)
    then have m: "snd x \<in> snd ` set (playlist s)" by (simp add: items)
    then obtain c where "(c, snd x) \<in> set (playlist s)" by force
    from wf_cell [OF assms(1) this] obtain it where
      it: "items_heap s (snd x) = Some it" "0 < item_ref_count it" by blast
    have "items_heap s1 (snd x) = Some (it\<lparr>item_ref_count := item_ref_count it + 1\<rparr>)"
      using h it(1) m by (simp add: s1)
    moreover have "2 \<le> item_ref_count (it\<lparr>item_ref_count := item_ref_count it + 1\<rparr>)"
      using it(2) by simp
    ultimately show "\<exists>it. items_heap s1 (snd x) = Some it \<and>
             (if snd x \<in> snd ` set (playlist s1) then 2 else 1) \<le> item_ref_count it"
      by auto
  qed
  have apart: "cells_apart s1 l"
    unfolding cells_apart_def
  proof
    fix c assume "c \<in> fst ` set (list_items l)"
    then have "c \<in> set (map fst (list_items l))" by simp
    then have c: "next_addr s \<le> c" "c < next_addr s + length (playlist s)"
      unfolding get_list_cells [OF assms(2)] by simp_all
    have "c \<notin> fst ` set (playlist s)"
    proof
      assume "c \<in> fst ` set (playlist s)"
      then obtain d where "(c, d) \<in> set (playlist s)" by force
      from wf_cell [OF assms(1) this] c(1) show False by auto
    qed
    with c(2) show "c < next_addr s1 \<and> c \<notin> fst ` set (playlist s1)" by (simp add: s1)
  qed
  from run_ops_keeps [OF wf1 assms(3) refs apart]
  have k: "list_kept s1 s2 l" and a2: "cells_apart s2 l" by simp_all
  from a2 have disj: "fst ` set (list_items l) \<inter> fst ` set (playlist s2) = {}"
    unfolding cells_apart_def by blast
  from k have c2: "list_contents s2 l = list_contents s1 l" and r2: "list_holds_refs s2 l"
    by (simp_all add: list_kept_def)
  have len: "length (fst (list_contents s2 l)) = length (playlist s)"
    unfolding c2 c1 by simp
  have live: "None \<notin> set (fst (list_contents s2 l))"
    using r2 unfolding list_holds_refs_def list_contents_def by force
  from c1 c2 len live disj show ?thesis by blast
qed

text \<open>
  In the example, \<^verbatim>\<open>get_list\<close> returns the list of \<^verbatim>\<open>b\<close> and \<^verbatim>\<open>a\<close>; after \<^verbatim>\<open>add\<close> of
  \<^verbatim>\<open>c\<close> and \<^verbatim>\<open>remove\<close> of \<^verbatim>\<open>a\<close> the playlist holds \<^verbatim>\<open>c\<close> and \<^verbatim>\<open>b\<close>, and the list
  still reads \<^verbatim>\<open>b\<close> and \<^verbatim>\<open>a\<close>.
\<close>

theorem get_list_is_independent_snapshot_witness:
  "playlist_wf playlist_ab \<and>
   melo_playlist_simple_get_list playlist_ab =
     Some (ab_snapshot, playlist_ab_listed, [MutexLock, MutexUnlock]) \<and>
   run_ops (\<lambda>t. False) [OpAdd (Some ''c'') None (Some ''/c'') None False, OpRemove ''a'']
     playlist_ab_listed = Some playlist_cb \<and>
   playlist_names playlist_ab = [Some ''b'', Some ''a''] \<and>
   playlist_names playlist_cb = [Some ''c'', Some ''b''] \<and>
   list_contents playlist_cb ab_snapshot = list_contents playlist_ab_listed ab_snapshot \<and>
   map (map_option item_name) (fst (list_contents playlist_cb ab_snapshot)) = [Some ''b'', Some ''a''] \<and>
   fst ` set (list_items ab_snapshot) \<inter> fst ` set (playlist playlist_cb) = {}"
proof -
  note t = get_list_is_independent_snapshot
    [OF playlist_ab_wf playlist_ab_get_list playlist_ab_listed_changed]
  have n1: "playlist_names playlist_ab = [Some ''b'', Some ''a'']"
    by (simp add: playlist_names_def playlist_ab_def)
  have n2: "playlist_names playlist_cb = [Some ''c'', Some ''b'']"
    by (simp add: playlist_names_def playlist_cb_def)
  have c: "list_contents playlist_cb ab_snapshot = list_contents playlist_ab_listed ab_snapshot"
    using t by simp
  have "map (map_option item_name) (fst (list_contents playlist_ab_listed ab_snapshot)) =
      [Some ''b'', Some ''a'']"
    using t by (simp add: playlist_ab_def)
  with c have m: "map (map_option item_name) (fst (list_contents playlist_cb ab_snapshot)) =
      [Some ''b'', Some ''a'']"
    by simp
  have d: "fst ` set (list_items ab_snapshot) \<inter> fst ` set (playlist playlist_cb) = {}"
    using t by blast
  from playlist_ab_wf playlist_ab_get_list playlist_ab_listed_changed n1 n2 c m d
  show ?thesis by blast
qed

end
